theory Spec2Isabelle
  imports Main "HOL-Library.Word" "HOL-Library.Multiset"
begin

unbundle bit_operations_syntax

section \<open>Data model\<close>

text \<open>
  The module \<^verbatim>\<open>CTLungSeg/segmentation.py\<close> works on numpy arrays and pandas data frames.
  A slice is a two-dimensional grid (a list of rows), a volume is a list of slices.
  Grey levels are unsigned 8-bit samples; label maps hold integers.
  Exceptions of the Python run time are values of \<open>error\<close>.
\<close>

datatype error = KeyError | IndexError | ValueError

type_synonym 'a slice = "'a list list"
type_synonym 'a volume = "'a slice list"
type_synonym u8 = "8 word"

text \<open>An element-wise operation on a volume.\<close>

definition map_volume :: "('a \<Rightarrow> 'b) \<Rightarrow> 'a volume \<Rightarrow> 'b volume" where
  "map_volume f vol = map (map (map f)) vol"

text \<open>
  One row of the statistics table of a slice, with the column order
  \<^verbatim>\<open>LEFT, TOP, WIDTH, HEIGHT, AREA\<close> (column 4 is \<^verbatim>\<open>AREA\<close>). A table is the list of its
  rows in order, each with its index label: order and repeated labels are kept, as a
  pandas data frame keeps them.
\<close>

record region_stats =
  LEFT :: int
  TOP :: int
  WIDTH :: int
  HEIGHT :: int
  AREA :: int

type_synonym stats_table = "(int \<times> region_stats) list"

section \<open>The pandas and numpy operations the module calls\<close>

definition index_of :: "stats_table \<Rightarrow> int list" where
  "index_of st = map fst st"

text \<open>\<^verbatim>\<open>DataFrame.drop\<close>: removes every row carrying the label; a label that is absent
  raises \<^verbatim>\<open>KeyError\<close>.\<close>

definition drop_index :: "int \<Rightarrow> stats_table \<Rightarrow> error + stats_table" where
  "drop_index k st =
     (if k \<in> set (index_of st) then Inr (filter (\<lambda>row. fst row \<noteq> k) st) else Inl KeyError)"

text \<open>Column reductions: the minimum or maximum of an empty column is NaN, here \<open>None\<close>.\<close>

fun reduce_min :: "int list \<Rightarrow> int option" where
  "reduce_min [] = None"
| "reduce_min (x # xs) = Some (fold min xs x)"

fun reduce_max :: "int list \<Rightarrow> int option" where
  "reduce_max [] = None"
| "reduce_max (x # xs) = Some (fold max xs x)"

text \<open>\<^verbatim>\<open>np.nan_to_num\<close> maps NaN to zero and leaves numbers alone.\<close>

definition nan_to_num :: "int option \<Rightarrow> int" where
  "nan_to_num v = (case v of None \<Rightarrow> 0 | Some x \<Rightarrow> x)"


definition add_int32 :: "int \<Rightarrow> int \<Rightarrow> int" where
  "add_int32 a b = (a + b + 2147483648) mod 4294967296 - 2147483648"

text \<open>\<^verbatim>\<open>astype('int16')\<close>: the value is kept modulo \<open>2 ^ 16\<close> and read as two's complement.\<close>

definition astype_int16 :: "int \<Rightarrow> int" where
  "astype_int16 v = (v + 32768) mod 65536 - 32768"

section \<open>ROI extraction\<close>

text \<open>
  \<^verbatim>\<open>
  def find_ROI(stats) :
      stats = stats.drop([0], axis = 0)
      corner = np.array([stats.min(axis = 0)['LEFT'], stats.min(axis = 0)['TOP'],
                         np.max(stats['LEFT'] + stats['WIDTH']),
                         np.max(stats['TOP'] + stats['HEIGHT'])])
      return np.nan_to_num(corner, copy=False).astype('int16')
  \<close>
  \<^verbatim>\<open>stats['LEFT'] + stats['WIDTH']\<close> adds two columns sample by sample, before the maximum is
  taken.
\<close>

definition find_ROI :: "stats_table \<Rightarrow> error + int list" where
  "find_ROI stats =
     (case drop_index 0 stats of
        Inl e \<Rightarrow> Inl e
      | Inr st \<Rightarrow>
          (let corner = [reduce_min (map (\<lambda>row. LEFT (snd row)) st),
                         reduce_min (map (\<lambda>row. TOP (snd row)) st),
                         reduce_max (map (\<lambda>row. add_int32 (LEFT (snd row)) (WIDTH (snd row))) st),
                         reduce_max (map (\<lambda>row. add_int32 (TOP (snd row)) (HEIGHT (snd row))) st)]
           in Inr (map (\<lambda>v. astype_int16 (nan_to_num v)) corner)))"

text \<open>The rows of a table that are left once the background row (label 0) is dropped.\<close>

definition foreground_rows :: "stats_table \<Rightarrow> stats_table" where
  "foreground_rows stats = filter (\<lambda>row. fst row \<noteq> 0) stats"



section \<open>Arrays in memory\<close>

text \<open>
  numpy arrays are mutable buffers, so the functions that write into arrays are modelled
  over a heap: the list of the buffers allocated so far, an array being the address
  (position) of its buffer. \<^verbatim>\<open>a.copy()\<close> allocates a new buffer holding the same values;
  \<^verbatim>\<open>a[i] = s\<close> overwrites slice \<open>i\<close> of the buffer of \<open>a\<close> and no other buffer; \<^verbatim>\<open>a[i]\<close>
  reads it.
\<close>

type_synonym addr = nat
type_synonym heap = "u8 volume list"

definition copy :: "addr \<Rightarrow> heap \<Rightarrow> addr \<times> heap" where
  "copy a h = (length h, h @ [h ! a])"

definition get_slice :: "addr \<Rightarrow> nat \<Rightarrow> heap \<Rightarrow> u8 slice" where
  "get_slice a i h = h ! a ! i"

definition set_slice :: "addr \<Rightarrow> nat \<Rightarrow> u8 slice \<Rightarrow> heap \<Rightarrow> heap" where
  "set_slice a i s h = h[a := (h ! a)[i := s]]"

text \<open>Element-wise operations on two slices of one shape.\<close>

definition zip_slice :: "('a \<Rightarrow> 'b \<Rightarrow> 'c) \<Rightarrow> 'a slice \<Rightarrow> 'b slice \<Rightarrow> 'c slice" where
  "zip_slice f a b = map2 (map2 f) a b"

definition bitwise_or :: "u8 slice \<Rightarrow> u8 slice \<Rightarrow> u8 slice" where
  "bitwise_or a b = zip_slice (OR) a b"

definition bitwise_and :: "u8 slice \<Rightarrow> u8 slice \<Rightarrow> u8 slice" where
  "bitwise_and a b = zip_slice (AND) a b"

text \<open>The shape \<open>(n, rows, cols)\<close> of a volume: every slice has \<open>rows\<close> rows of \<open>cols\<close>
  samples. numpy arrays always have one.\<close>

definition slice_shape :: "nat \<times> nat \<Rightarrow> 'a slice \<Rightarrow> bool" where
  "slice_shape d s = (length s = fst d \<and> list_all (\<lambda>row. length row = snd d) s)"

definition has_shape :: "nat \<times> nat \<times> nat \<Rightarrow> 'a volume \<Rightarrow> bool" where
  "has_shape d vol = (length vol = fst d \<and> list_all (slice_shape (snd d)) vol)"

section \<open>Gap reconstruction\<close>

text \<open>
  \<^verbatim>\<open>
  def reconstruct_gg_areas(mask):
      first  = mask.copy()
      second = mask.copy()
      reconstructed = mask.copy()

      for i in range(first.shape[0] -1):
          first[i + 1] = np.bitwise_or(first[i], first[i + 1], dtype=np.uint8)

      for i in reversed(range(1, second.shape[0], 1)):
          second[i - 1] = np.bitwise_or(second[i - 1], second[i], dtype = np.uint8)

      for i in range(reconstructed.shape[0]):
          reconstructed[i] = np.bitwise_and(first[i], second[i], dtype = np.uint8)
      return reconstructed
  \<close>
  The three loops, each a fold of its body over the indices it visits. The range of a
  loop is computed once, before the loop runs.
\<close>

definition forward_sweep :: "addr \<Rightarrow> heap \<Rightarrow> heap" where
  "forward_sweep first h =
     fold (\<lambda>i h. set_slice first (i + 1)
                    (bitwise_or (get_slice first i h) (get_slice first (i + 1) h)) h)
          [0 ..< length (h ! first) - 1] h"

definition backward_sweep :: "addr \<Rightarrow> heap \<Rightarrow> heap" where
  "backward_sweep second h =
     fold (\<lambda>i h. set_slice second (i - 1)
                    (bitwise_or (get_slice second (i - 1) h) (get_slice second i h)) h)
          (rev [1 ..< length (h ! second)]) h"

definition merge_sweeps :: "addr \<Rightarrow> addr \<Rightarrow> addr \<Rightarrow> heap \<Rightarrow> heap" where
  "merge_sweeps first second reconstructed h =
     fold (\<lambda>i h. set_slice reconstructed i
                    (bitwise_and (get_slice first i h) (get_slice second i h)) h)
          [0 ..< length (h ! reconstructed)] h"

text \<open>The local variables of a call when it returns, and the heap it leaves.\<close>

record reconstruct_frame =
  first_arr :: addr
  second_arr :: addr
  reconstructed_arr :: addr
  final_heap :: heap

definition reconstruct_gg_areas_frame :: "addr \<Rightarrow> heap \<Rightarrow> reconstruct_frame" where
  "reconstruct_gg_areas_frame mask_arr h =
     (let (first, h1) = copy mask_arr h;
          (second, h2) = copy mask_arr h1;
          (reconstructed, h3) = copy mask_arr h2;
          h4 = forward_sweep first h3;
          h5 = backward_sweep second h4;
          h6 = merge_sweeps first second reconstructed h5
      in \<lparr>first_arr = first, second_arr = second, reconstructed_arr = reconstructed,
         final_heap = h6\<rparr>)"

text \<open>The call returns the array \<open>reconstructed\<close>; the heap is what the caller finds.
  The parameter \<^verbatim>\<open>mask\<close> is written \<open>mask_arr\<close>.\<close>

definition reconstruct_gg_areas :: "addr \<Rightarrow> heap \<Rightarrow> addr \<times> heap" where
  "reconstruct_gg_areas mask_arr h =
     (let fr = reconstruct_gg_areas_frame mask_arr h in (reconstructed_arr fr, final_heap fr))"

text \<open>A binary volume: every sample is background (0) or the one foreground value \<open>v\<close>.\<close>

definition binary_volume :: "u8 \<Rightarrow> u8 volume \<Rightarrow> bool" where
  "binary_volume v vol = list_all (list_all (list_all (\<lambda>x. x = 0 \<or> x = v))) vol"

text \<open>The samples of one pixel position along the slice axis, and the volumes with no gap:
  in every pixel column, a sample between two foreground samples is foreground.\<close>

definition column :: "u8 volume \<Rightarrow> nat \<Rightarrow> nat \<Rightarrow> u8 list" where
  "column vol r c = map (\<lambda>s. s ! r ! c) vol"

definition contiguous_support :: "u8 list \<Rightarrow> bool" where
  "contiguous_support xs =
     list_all (\<lambda>k. list_all (\<lambda>i. list_all (\<lambda>j. xs ! j \<noteq> 0 \<and> xs ! k \<noteq> 0 \<longrightarrow> xs ! i \<noteq> 0)
                                   [0 ..< Suc i]) [0 ..< Suc k]) [0 ..< length xs]"

definition no_gaps :: "nat \<times> nat \<times> nat \<Rightarrow> u8 volume \<Rightarrow> bool" where
  "no_gaps d vol =
     list_all (\<lambda>r. list_all (\<lambda>c. contiguous_support (column vol r c)) [0 ..< snd (snd d)])
              [0 ..< fst (snd d)]"

text \<open>What the sweeps compute, slice by slice: the OR of the slices up to \<open>i\<close>, and of the
  slices from \<open>i\<close> on.\<close>

fun or_upto :: "u8 volume \<Rightarrow> nat \<Rightarrow> u8 slice" where
  "or_upto v 0 = v ! 0"
| "or_upto v (Suc i) = bitwise_or (or_upto v i) (v ! Suc i)"

function or_from :: "u8 volume \<Rightarrow> nat \<Rightarrow> u8 slice" where
  "or_from v i = (if Suc i < length v then bitwise_or (v ! i) (or_from v (Suc i)) else v ! i)"
  by pat_completeness auto
termination
  by (relation "measure (\<lambda>(v, i). length v - i)") auto

declare or_from.simps [simp del]

text \<open>The contents of the three working arrays when the call returns, as functions of
  the contents \<open>v\<close> of the input array: each loop run on one buffer alone.\<close>

definition forward_buffer :: "u8 volume \<Rightarrow> u8 volume" where
  "forward_buffer v = fold (\<lambda>i v. v[i + 1 := bitwise_or (v ! i) (v ! (i + 1))]) [0 ..< length v - 1] v"

definition backward_buffer :: "u8 volume \<Rightarrow> u8 volume" where
  "backward_buffer v = fold (\<lambda>i v. v[i - 1 := bitwise_or (v ! (i - 1)) (v ! i)]) (rev [1 ..< length v]) v"

definition merged_buffer :: "u8 volume \<Rightarrow> u8 volume" where
  "merged_buffer v =
     map (\<lambda>i. bitwise_and (forward_buffer v ! i) (backward_buffer v ! i)) [0 ..< length v]"


section \<open>Bit-plane recomposition\<close>

text \<open>
  Modelled from the spec: \<^verbatim>\<open>gl2bit\<close> of \<^verbatim>\<open>CTLungSeg.method\<close>, which is not among the sources.
  It decomposes each voxel of an 8-bit volume into its 8 binary planes, ordered from the
  most significant bit (plane 0) to the least significant bit (plane 7).
\<close>

definition gl2bit :: "u8 volume \<Rightarrow> u8 volume list" where
  "gl2bit stack =
     map (\<lambda>k. map_volume (\<lambda>x. if bit x (7 - k) then 1 else 0) stack) [0 ..< 8]"

text \<open>
  \<^verbatim>\<open>binary[idx, ...]\<close> with an integer index array: a negative index counts from the end,
  an index outside \<open>[-len, len)\<close> raises \<^verbatim>\<open>IndexError\<close>. An empty tuple makes a float array,
  which is refused as an index.
\<close>

definition take_planes :: "'a list \<Rightarrow> int list \<Rightarrow> error + 'a list" where
  "take_planes binary idx =
     (let n = int (length binary) in
      if idx = [] then Inl IndexError
      else if list_all (\<lambda>i. - n \<le> i \<and> i < n) idx
      then Inr (map (\<lambda>i. binary ! nat (if i < 0 then i + n else i)) idx)
      else Inl IndexError)"

text \<open>\<^verbatim>\<open>[2**(i - 1) for i in bit]\<close> on numpy integers: a negative exponent raises
  \<^verbatim>\<open>ValueError\<close>.\<close>

definition significance_of :: "int list \<Rightarrow> error + int list" where
  "significance_of bits =
     (if list_all (\<lambda>i. 0 \<le> i - 1) bits then Inr (map (\<lambda>i. 2 ^ nat (i - 1)) bits)
      else Inl ValueError)"

text \<open>\<^verbatim>\<open>.reshape(3, 1, 1, 1)\<close> needs exactly three elements.\<close>

definition reshape_3111 :: "int list \<Rightarrow> error + int list" where
  "reshape_3111 xs = (if length xs = 3 then Inr xs else Inl ValueError)"

definition zip_volume :: "('a \<Rightarrow> 'b \<Rightarrow> 'c) \<Rightarrow> 'a volume \<Rightarrow> 'b volume \<Rightarrow> 'c volume" where
  "zip_volume f a b = map2 (zip_slice f) a b"

text \<open>\<^verbatim>\<open>selection * significance\<close>: plane \<open>k\<close> times weight \<open>k\<close>, in 64-bit integers (no
  overflow: a plane holds 0 or 1). \<^verbatim>\<open>np.sum(..., axis=0)\<close> adds the planes voxel by voxel.\<close>

definition weighted :: "u8 volume list \<Rightarrow> int list \<Rightarrow> int volume list" where
  "weighted selection significance =
     map2 (\<lambda>plane w. map_volume (\<lambda>x. uint x * w) plane) selection significance"

fun sum_axis0 :: "int volume list \<Rightarrow> int volume" where
  "sum_axis0 [] = []"
| "sum_axis0 (p # ps) = foldl (zip_volume (+)) p ps"

definition astype_uint8 :: "int volume \<Rightarrow> u8 volume" where
  "astype_uint8 vol = map_volume word_of_int vol"

text \<open>
  \<^verbatim>\<open>
  def bit_plane_slices(stack, bits):
      binary = gl2bit(stack)
      bit = np.asarray(bits)
      selection = binary[8 - bit, ...]
      significance = np.asarray([2**(i - 1) for i in bit]).reshape(3, 1, 1, 1)
      return (np.sum(selection * significance, axis=0)).astype(np.uint8)
  \<close>
\<close>

definition bit_plane_slices :: "u8 volume \<Rightarrow> int list \<Rightarrow> error + u8 volume" where
  "bit_plane_slices stack bits =
     (let binary = gl2bit stack in
      case take_planes binary (map (\<lambda>b. 8 - b) bits) of
        Inl e \<Rightarrow> Inl e
      | Inr selection \<Rightarrow>
          (case significance_of bits of
             Inl e \<Rightarrow> Inl e
           | Inr powers \<Rightarrow>
               (case reshape_3111 powers of
                  Inl e \<Rightarrow> Inl e
                | Inr significance \<Rightarrow>
                    Inr (astype_uint8 (sum_axis0 (weighted selection significance))))))"

text \<open>The value the recomposition of a voxel \<open>x\<close> from the bit positions \<open>bits\<close> (1 = least
  significant) is meant to have: the sum of \<open>2 ^ (b - 1)\<close> over the positions \<open>b\<close> whose bit is
  set in \<open>x\<close>, as an 8-bit value.\<close>

definition recompose :: "int list \<Rightarrow> u8 \<Rightarrow> u8" where
  "recompose bits x =
     word_of_int (sum_list (map (\<lambda>b. if bit x (nat (b - 1)) then 2 ^ nat (b - 1) else 0) bits))"


section \<open>Connected components\<close>

text \<open>
  Modelled from the spec: \<^verbatim>\<open>connected_components_wStats\<close> of \<^verbatim>\<open>CTLungSeg.method\<close>, which is not
  among the sources. It runs the component analyzer on every slice of the volume and
  returns, slice by slice, the label maps and the statistics tables (the region counts and
  the centroids it also returns are never read). The analyzer of one slice is the parameter
  \<open>analyze\<close>.
\<close>

type_synonym analyzer = "u8 slice \<Rightarrow> int slice \<times> stats_table"

definition connected_components_wStats ::
  "analyzer \<Rightarrow> u8 volume \<Rightarrow> int volume \<times> stats_table list" where
  "connected_components_wStats analyze img =
     (map (\<lambda>s. fst (analyze s)) img, map (\<lambda>s. snd (analyze s)) img)"

text \<open>Pixel positions \<open>(row, column)\<close> of a slice, the sample at a position, and the number
  of pixels that carry a label.\<close>

type_synonym pos = "nat \<times> nat"

definition px :: "'a slice \<Rightarrow> pos \<Rightarrow> 'a" where
  "px s p = s ! fst p ! snd p"

definition positions :: "'a slice \<Rightarrow> pos list" where
  "positions s = concat (map (\<lambda>r. map (\<lambda>c. (r, c)) [0 ..< length (s ! r)]) [0 ..< length s])"

definition count_label :: "int \<Rightarrow> int slice \<Rightarrow> nat" where
  "count_label j lab = length (filter (\<lambda>x. x = j) (concat lab))"

text \<open>\<open>reach adj inside p q\<close>: a path of adjacent positions, all of them \<open>inside\<close>, leads from
  \<open>p\<close> to \<open>q\<close>.\<close>

inductive reach :: "(pos \<Rightarrow> pos \<Rightarrow> bool) \<Rightarrow> (pos \<Rightarrow> bool) \<Rightarrow> pos \<Rightarrow> pos \<Rightarrow> bool"
  for adj :: "pos \<Rightarrow> pos \<Rightarrow> bool" and inside :: "pos \<Rightarrow> bool" where
  reach_refl: "inside p \<Longrightarrow> reach adj inside p p"
| reach_step: "reach adj inside p q \<Longrightarrow> adj q q' \<Longrightarrow> inside q' \<Longrightarrow> reach adj inside p q'"

text \<open>
  Modelled from the spec: the contract of the component analyzer. For a slice \<open>s\<close> it returns
  a label map of the shape of \<open>s\<close> and a statistics table whose rows are indexed by the
  region ids \<open>0, 1, ...\<close>. Id 0 is the background, and only the background; every label of
  the map has its row; \<^verbatim>\<open>AREA\<close> of a row is the number of pixels carrying its id; every
  foreground region has a pixel; a region is connected (any two of its pixels are joined by
  a path of adjacent pixels of the region) and maximal (adjacent foreground pixels carry one
  id). The adjacency \<open>adj\<close> (4- or 8-neighbourhood) is the analyzer's.
\<close>

definition analyzer_contract ::
  "(pos \<Rightarrow> pos \<Rightarrow> bool) \<Rightarrow> u8 slice \<Rightarrow> int slice \<times> stats_table \<Rightarrow> bool" where
  "analyzer_contract adj s res =
     (case res of (lab, stat) \<Rightarrow>
        map length lab = map length s \<and>
        (\<forall>p\<in>set (positions s). (px lab p = 0) = (px s p = 0)) \<and>
        stat \<noteq> [] \<and> index_of stat = map int [0 ..< length stat] \<and>
        (\<forall>p\<in>set (positions s). 0 \<le> px lab p \<and> px lab p < int (length stat)) \<and>
        (\<forall>j<length stat. AREA (snd (stat ! j)) = int (count_label (int j) lab)) \<and>
        (\<forall>j<length stat. 0 < j \<longrightarrow> 0 < AREA (snd (stat ! j))) \<and>
        (\<forall>p\<in>set (positions s). \<forall>q\<in>set (positions s).
           px lab p \<noteq> 0 \<and> px lab p = px lab q \<longrightarrow>
           reach adj (\<lambda>a. a \<in> set (positions s) \<and> px lab a = px lab p) p q) \<and>
        (\<forall>p\<in>set (positions s). \<forall>q\<in>set (positions s).
           adj p q \<and> px s p \<noteq> 0 \<and> px s q \<noteq> 0 \<longrightarrow> px lab p = px lab q))"

text \<open>The 8-neighbourhood, and an analyzer given by a table of its results (for examples).\<close>

definition adj8 :: "pos \<Rightarrow> pos \<Rightarrow> bool" where
  "adj8 p q = (p \<noteq> q \<and> fst p \<le> fst q + 1 \<and> fst q \<le> fst p + 1
                \<and> snd p \<le> snd q + 1 \<and> snd q \<le> snd p + 1)"

definition analyzer_of_table :: "(u8 slice \<times> int slice \<times> stats_table) list \<Rightarrow> analyzer" where
  "analyzer_of_table tbl s = (case map_of tbl s of Some res \<Rightarrow> res | None \<Rightarrow> ([], []))"

section \<open>Masked assignment and queries\<close>

text \<open>\<^verbatim>\<open>a[cond(a)] = v\<close>: every sample of the slice that satisfies the condition becomes \<open>v\<close>.\<close>

definition set_where :: "('a \<Rightarrow> bool) \<Rightarrow> 'a \<Rightarrow> 'a slice \<Rightarrow> 'a slice" where
  "set_where cond v a = map (map (\<lambda>x. if cond x then v else x)) a"

text \<open>\<^verbatim>\<open>a[m] = v\<close> for a boolean array \<open>m\<close> of the shape of \<open>a\<close>.\<close>

definition assign_where :: "bool slice \<Rightarrow> 'a \<Rightarrow> 'a slice \<Rightarrow> 'a slice" where
  "assign_where m v a = zip_slice (\<lambda>b x. if b then v else x) m a"

text \<open>\<^verbatim>\<open>stat.query('AREA < a').index\<close> and \<^verbatim>\<open>stat.query('AREA == a').index\<close>: the labels of the
  rows that satisfy the query, in the order of the table.\<close>

definition query_area_lt :: "int \<Rightarrow> stats_table \<Rightarrow> int list" where
  "query_area_lt a stat = map fst (filter (\<lambda>row. AREA (snd row) < a) stat)"

definition query_area_eq :: "int \<Rightarrow> stats_table \<Rightarrow> int list" where
  "query_area_eq a stat = map fst (filter (\<lambda>row. AREA (snd row) = a) stat)"

section \<open>Spot removal\<close>

text \<open>
  \<^verbatim>\<open>
  def remove_spots(img, area):
      _, lab, stats, _ = connected_components_wStats(img)

      for i,stat in enumerate(stats):
          for j in stat.query('AREA < {}'.format(str(area))).index:
              lab[i][lab[i] == j] = 0
      lab = lab != 0
      return lab.astype(np.uint8)
  \<close>
  No statement of the function raises. \<open>lab\<close> is the array the analyzer has just made, so
  the writes into it are seen by nobody else.
\<close>

definition remove_spots :: "analyzer \<Rightarrow> u8 volume \<Rightarrow> int \<Rightarrow> u8 volume" where
  "remove_spots analyze img area =
     (case connected_components_wStats analyze img of
        (lab, stats) \<Rightarrow>
          (let lab' = fold (\<lambda>(i, stat) lab.
                              fold (\<lambda>j lab. lab[i := set_where (\<lambda>x. x = j) 0 (lab ! i)])
                                   (query_area_lt area stat) lab)
                           (enumerate 0 stats) lab
           in map_volume (\<lambda>x. if x \<noteq> 0 then 1 else 0) lab'))"

section \<open>Selection of the largest regions\<close>

text \<open>A loop whose body may raise: the first error ends it.\<close>

fun fold_err :: "('a \<Rightarrow> 'b \<Rightarrow> error + 'b) \<Rightarrow> 'a list \<Rightarrow> 'b \<Rightarrow> error + 'b" where
  "fold_err f [] s = Inr s"
| "fold_err f (x # xs) s = (case f x s of Inl e \<Rightarrow> Inl e | Inr s' \<Rightarrow> fold_err f xs s')"

fun map_err :: "('a \<Rightarrow> error + 'b) \<Rightarrow> 'a list \<Rightarrow> error + 'b list" where
  "map_err f [] = Inr []"
| "map_err f (x # xs) =
     (case f x of
        Inl e \<Rightarrow> Inl e
      | Inr y \<Rightarrow> (case map_err f xs of Inl e \<Rightarrow> Inl e | Inr ys \<Rightarrow> Inr (y # ys)))"

text \<open>
  \<^verbatim>\<open>stat.sort_values(by = ['AREA'], ascending = False)\<close>: the rows of the table in
  descending order of \<^verbatim>\<open>AREA\<close>. The call leaves the sorting algorithm at the default of
  pandas (\<^verbatim>\<open>quicksort\<close>), which is not stable: in which order rows of equal \<^verbatim>\<open>AREA\<close> come out
  is the choice of the library and differs between its versions and between machines. The
  sort is therefore a parameter \<open>sort_values\<close> of the model, as the analyzer is, and
  \<open>descending_by_AREA sort_values stat\<close> says what every choice does to the table \<open>stat\<close>: it
  rearranges the rows, and the areas descend. Only the \<^verbatim>\<open>AREA\<close> at each rank and the order
  of the labels of equal \<^verbatim>\<open>AREA\<close> are read below.
\<close>

type_synonym sorter = "stats_table \<Rightarrow> stats_table"

definition descending_by_AREA :: "sorter \<Rightarrow> stats_table \<Rightarrow> bool" where
  "descending_by_AREA sort_values stat =
     (mset (sort_values stat) = mset stat \<and>
      sorted (rev (map (\<lambda>row. AREA (snd row)) (sort_values stat))))"

text \<open>
  Two sorts. With a stable algorithm pandas reverses the rows, sorts them ascending and
  reverses the result, so that rows of equal \<^verbatim>\<open>AREA\<close> keep the order of the table:
  \<open>sort_values_stable\<close>. Sorting ascending and reversing the result leaves rows of equal
  \<^verbatim>\<open>AREA\<close> in the opposite order: \<open>sort_values_reversed\<close>.
\<close>

definition sort_values_stable :: sorter where
  "sort_values_stable stat = rev (sort_key (\<lambda>row. AREA (snd row)) (rev stat))"

definition sort_values_reversed :: sorter where
  "sort_values_reversed stat = rev (sort_key (\<lambda>row. AREA (snd row)) stat)"

text \<open>\<^verbatim>\<open>np.uint8(index)\<close>: each label modulo 256.\<close>

definition np_uint8 :: "int \<Rightarrow> int" where
  "np_uint8 j = j mod 256"

text \<open>
  \<^verbatim>\<open>lab == idx\<close> for a slice \<open>lab\<close> with \<open>cols\<close> columns and a one-dimensional array \<open>idx\<close> of
  \<open>k\<close> labels, followed by its use as a mask of \<open>lab\<close>. numpy broadcasts: for \<open>k = 1\<close> every
  sample is compared with the one label; for \<open>k = cols\<close> the sample in column \<open>c\<close> is
  compared with \<open>idx[c]\<close>; for \<open>cols = 1\<close> the comparison has \<open>k\<close> columns and does not fit
  \<open>lab\<close> as a mask (\<^verbatim>\<open>IndexError\<close>); otherwise the shapes cannot be broadcast
  (\<^verbatim>\<open>ValueError\<close>; numpy before 1.25 answered with the scalar \<^verbatim>\<open>False\<close>, which selects
  nothing).
\<close>

definition ncols :: "'a slice \<Rightarrow> nat" where
  "ncols a = (case a of [] \<Rightarrow> 0 | row # _ \<Rightarrow> length row)"

definition eq_broadcast :: "int slice \<Rightarrow> int list \<Rightarrow> error + bool slice" where
  "eq_broadcast lab idx =
     (if length idx = 1 then Inr (map (map (\<lambda>x. x = idx ! 0)) lab)
      else if length idx = ncols lab then Inr (map (\<lambda>row. map2 (\<lambda>x j. x = j) row idx) lab)
      else if ncols lab = 1 then Inl IndexError
      else Inl ValueError)"

text \<open>
  \<^verbatim>\<open>
  def select_greater_connected_regions(img, n_reg):
      m = []
      _, labs , stats, _ = connected_components_wStats(img)
      for stat, lab in zip(stats, labs):
          stat = stat.drop(index = 0)
          stat = stat.sort_values(by = ['AREA'], ascending = False)

          if len(stat.index ) > n_reg-1:
              for i in range(n_reg):
                  index  = stat.query('AREA == {}'.format(str(stat.iat[i, 4]))).index
                  lab[lab == np.uint8(index)] = 255
              lab[lab != 255] = 0
          else :
              lab[lab != 0] = 0
          m.append(lab)
      return np.asarray(m, dtype = np.uint8)
  \<close>
  The body of the outer loop, for one slice:
\<close>

definition select_slice ::
  "sorter \<Rightarrow> int \<Rightarrow> stats_table \<Rightarrow> int slice \<Rightarrow> error + int slice" where
  "select_slice sort_values n_reg stat0 lab =
     (case drop_index 0 stat0 of
        Inl e \<Rightarrow> Inl e
      | Inr stat1 \<Rightarrow>
          (let stat = sort_values stat1 in
           if int (length stat) > n_reg - 1
           then (case fold_err
                        (\<lambda>i lab.
                           (let index = query_area_eq (AREA (snd (stat ! i))) stat in
                            case eq_broadcast lab (map np_uint8 index) of
                              Inl e \<Rightarrow> Inl e
                            | Inr m \<Rightarrow> Inr (assign_where m 255 lab)))
                        [0 ..< nat n_reg] lab of
                   Inl e \<Rightarrow> Inl e
                 | Inr lab' \<Rightarrow> Inr (set_where (\<lambda>x. x \<noteq> 255) 0 lab'))
           else Inr (set_where (\<lambda>x. x \<noteq> 0) 0 lab)))"

definition select_greater_connected_regions ::
  "analyzer \<Rightarrow> sorter \<Rightarrow> u8 volume \<Rightarrow> int \<Rightarrow> error + u8 volume" where
  "select_greater_connected_regions analyze sort_values img n_reg =
     (case connected_components_wStats analyze img of
        (labs, stats) \<Rightarrow>
          (case map_err (\<lambda>(stat, lab). select_slice sort_values n_reg stat lab) (zip stats labs) of
             Inl e \<Rightarrow> Inl e
           | Inr m \<Rightarrow> Inr (map_volume word_of_int m)))"

text \<open>
  What the selection is documented to leave of one slice: the pixels of the \<open>n_reg\<close> first
  regions of the table ranked by descending \<^verbatim>\<open>AREA\<close> (regions of equal \<^verbatim>\<open>AREA\<close> in the order
  of the table) become 255 and all others 0; a slice with fewer than \<open>n_reg\<close> foreground
  regions becomes background.
\<close>

definition keep_largest :: "int \<Rightarrow> stats_table \<Rightarrow> int slice \<Rightarrow> int slice" where
  "keep_largest n_reg stat lab =
     (let ranked = sort_values_stable (foreground_rows stat) in
      if n_reg \<le> int (length ranked)
      then map (map (\<lambda>x. if x \<in> fst ` set (take (nat n_reg) ranked) then 255 else 0)) lab
      else map (map (\<lambda>x. 0)) lab)"


section \<open>Example slices\<close>

text \<open>
  The results of the component analyzer (8-neighbourhood) on four small slices, as a table:
  a row of two regions of areas 1 and 2, the same row with the small region erased, a slice
  of two regions of equal area, and a row with one region of value 1.
\<close>

definition example_table :: "(u8 slice \<times> int slice \<times> stats_table) list" where
  "example_table =
     [([[1, 0, 1, 1]],
       ([[1, 0, 2, 2]],
        [(0, \<lparr>LEFT = 1, TOP = 0, WIDTH = 1, HEIGHT = 1, AREA = 1\<rparr>),
         (1, \<lparr>LEFT = 0, TOP = 0, WIDTH = 1, HEIGHT = 1, AREA = 1\<rparr>),
         (2, \<lparr>LEFT = 2, TOP = 0, WIDTH = 2, HEIGHT = 1, AREA = 2\<rparr>)])),
      ([[0, 0, 1, 1]],
       ([[0, 0, 1, 1]],
        [(0, \<lparr>LEFT = 0, TOP = 0, WIDTH = 2, HEIGHT = 1, AREA = 2\<rparr>),
         (1, \<lparr>LEFT = 2, TOP = 0, WIDTH = 2, HEIGHT = 1, AREA = 2\<rparr>)])),
      ([[255, 255], [0, 0], [255, 255]],
       ([[1, 1], [0, 0], [2, 2]],
        [(0, \<lparr>LEFT = 0, TOP = 1, WIDTH = 2, HEIGHT = 1, AREA = 2\<rparr>),
         (1, \<lparr>LEFT = 0, TOP = 0, WIDTH = 2, HEIGHT = 1, AREA = 2\<rparr>),
         (2, \<lparr>LEFT = 0, TOP = 2, WIDTH = 2, HEIGHT = 1, AREA = 2\<rparr>)])),
      ([[1, 0]],
       ([[1, 0]],
        [(0, \<lparr>LEFT = 1, TOP = 0, WIDTH = 1, HEIGHT = 1, AREA = 1\<rparr>),
         (1, \<lparr>LEFT = 0, TOP = 0, WIDTH = 1, HEIGHT = 1, AREA = 1\<rparr>)]))]"

definition example_analyze :: analyzer where
  "example_analyze = analyzer_of_table example_table"


section \<open>Properties of the ROI extraction\<close>






lemma find_ROI_no_foreground:
  assumes "0 \<in> set (index_of stats)" and "foreground_rows stats = []"
  shows "find_ROI stats = Inr [0, 0, 0, 0]"
proof -
  have d: "drop_index 0 stats = Inr []"
    using assms by (simp add: drop_index_def foreground_rows_def)
  show ?thesis
    unfolding find_ROI_def d by (simp add: nan_to_num_def astype_int16_def)
qed

lemma find_ROI_no_background:
  assumes "0 \<notin> set (index_of stats)"
  shows "find_ROI stats = Inl KeyError"
  using assms by (simp add: find_ROI_def drop_index_def)





text \<open>
  C10. \<open>find_ROI\<close> drops the row labelled 0 before reducing. A table with no row labelled 0
  makes the call fail with \<^verbatim>\<open>KeyError\<close>, whatever rows it holds; a table with no foreground
  row is zero-filled exactly when it still has its background row.
\<close>

theorem find_ROI_needs_background_row:
  "(0 \<notin> set (index_of stats) \<longrightarrow> find_ROI stats = Inl KeyError)
   \<and> (foreground_rows stats = [] \<longrightarrow>
        (find_ROI stats = Inr [0, 0, 0, 0]) = (0 \<in> set (index_of stats)))"
proof (intro conjI impI)
  assume "0 \<notin> set (index_of stats)"
  then show "find_ROI stats = Inl KeyError"
    by (rule find_ROI_no_background)
next
  assume e: "foreground_rows stats = []"
  show "(find_ROI stats = Inr [0, 0, 0, 0]) = (0 \<in> set (index_of stats))"
  proof (cases "0 \<in> set (index_of stats)")
    case True
    then show ?thesis using e by (simp add: find_ROI_no_foreground)
  next
    case False
    then show ?thesis by (simp add: find_ROI_no_background)
  qed
qed

theorem find_ROI_needs_background_row_witness:
  "find_ROI [(1, \<lparr>LEFT = 2, TOP = 3, WIDTH = 4, HEIGHT = 5, AREA = 20\<rparr>)] = Inl KeyError
   \<and> find_ROI [] = Inl KeyError
   \<and> find_ROI [(0, \<lparr>LEFT = 0, TOP = 0, WIDTH = 9, HEIGHT = 9, AREA = 81\<rparr>)] = Inr [0, 0, 0, 0]"
  using find_ROI_needs_background_row
          [of "[(1, \<lparr>LEFT = 2, TOP = 3, WIDTH = 4, HEIGHT = 5, AREA = 20\<rparr>)]"]
        find_ROI_needs_background_row [of "[]"]
        find_ROI_needs_background_row
          [of "[(0, \<lparr>LEFT = 0, TOP = 0, WIDTH = 9, HEIGHT = 9, AREA = 81\<rparr>)]"]
  by (simp add: index_of_def foreground_rows_def)

section \<open>Properties of the gap reconstruction\<close>

lemma zip_slice_shape:
  "slice_shape d a \<Longrightarrow> slice_shape d b \<Longrightarrow> slice_shape d (zip_slice f a b)"
  by (auto simp: slice_shape_def zip_slice_def list_all_length)

lemma zip_slice_nth:
  "slice_shape d a \<Longrightarrow> slice_shape d b \<Longrightarrow> r < fst d \<Longrightarrow> c < snd d \<Longrightarrow>
   zip_slice f a b ! r ! c = f (a ! r ! c) (b ! r ! c)"
  by (auto simp: slice_shape_def zip_slice_def list_all_length)

lemma fold_set_slice:
  "a < length h \<Longrightarrow>
   fold (\<lambda>i h. set_slice a (g i) (F i (h ! a)) h) js h
     = h[a := fold (\<lambda>i v. v[g i := F i v]) js (h ! a)]"
  by (induction js arbitrary: h) (simp_all add: set_slice_def)

lemma forward_sweep_buffer:
  "a < length h \<Longrightarrow> forward_sweep a h = h[a := forward_buffer (h ! a)]"
  unfolding forward_sweep_def forward_buffer_def get_slice_def
  using fold_set_slice [of a h "\<lambda>i. i + 1" "\<lambda>i v. bitwise_or (v ! i) (v ! (i + 1))"]
  by simp

lemma backward_sweep_buffer:
  "a < length h \<Longrightarrow> backward_sweep a h = h[a := backward_buffer (h ! a)]"
  unfolding backward_sweep_def backward_buffer_def get_slice_def
  using fold_set_slice [of a h "\<lambda>i. i - 1" "\<lambda>i v. bitwise_or (v ! (i - 1)) (v ! i)"]
  by simp

lemma forward_fold_inv:
  "k < length v \<Longrightarrow>
   length (fold (\<lambda>i v. v[i + 1 := bitwise_or (v ! i) (v ! (i + 1))]) [0 ..< k] v) = length v \<and>
   (\<forall>i\<le>k. fold (\<lambda>i v. v[i + 1 := bitwise_or (v ! i) (v ! (i + 1))]) [0 ..< k] v ! i = or_upto v i) \<and>
   (\<forall>i. k < i \<longrightarrow> fold (\<lambda>i v. v[i + 1 := bitwise_or (v ! i) (v ! (i + 1))]) [0 ..< k] v ! i = v ! i)"
proof (induction k)
  case 0
  then show ?case by simp
next
  case (Suc k)
  let ?w = "fold (\<lambda>i v. v[i + 1 := bitwise_or (v ! i) (v ! (i + 1))]) [0 ..< k] v"
  from Suc have ih: "length ?w = length v" "\<forall>i\<le>k. ?w ! i = or_upto v i" "\<forall>i. k < i \<longrightarrow> ?w ! i = v ! i"
    by simp_all
  have step: "fold (\<lambda>i v. v[i + 1 := bitwise_or (v ! i) (v ! (i + 1))]) [0 ..< Suc k] v
        = ?w[Suc k := bitwise_or (or_upto v k) (v ! Suc k)]"
    using ih by simp
  show ?case
    unfolding step using ih Suc.prems
    by (auto simp: nth_list_update le_Suc_eq)
qed

lemma forward_buffer_nth:
  "i < length v \<Longrightarrow> forward_buffer v ! i = or_upto v i"
  using forward_fold_inv [of "length v - 1" v] by (simp add: forward_buffer_def)

lemma forward_buffer_length: "length (forward_buffer v) = length v"
proof (cases "v = []")
  case True then show ?thesis by (simp add: forward_buffer_def)
next
  case False then show ?thesis
    using forward_fold_inv [of "length v - 1" v] by (simp add: forward_buffer_def)
qed

lemma backward_fold_inv:
  "d < length v \<Longrightarrow>
   length (fold (\<lambda>i v. v[i - 1 := bitwise_or (v ! (i - 1)) (v ! i)]) (rev [length v - d ..< length v]) v) = length v \<and>
   (\<forall>i. length v - d - 1 \<le> i \<and> i < length v \<longrightarrow>
      fold (\<lambda>i v. v[i - 1 := bitwise_or (v ! (i - 1)) (v ! i)]) (rev [length v - d ..< length v]) v ! i = or_from v i) \<and>
   (\<forall>i. i < length v - d - 1 \<longrightarrow>
      fold (\<lambda>i v. v[i - 1 := bitwise_or (v ! (i - 1)) (v ! i)]) (rev [length v - d ..< length v]) v ! i = v ! i)"
proof (induction d)
  case 0
  have "or_from v i = v ! i" if "length v - 1 \<le> i" "i < length v" for i
  proof -
    have "\<not> Suc i < length v" using that by arith
    then show ?thesis by (subst or_from.simps) simp
  qed
  then show ?case by simp
next
  case (Suc d)
  let ?n = "length v"
  let ?G = "\<lambda>i v. v[i - 1 := bitwise_or (v ! (i - 1)) (v ! i)]"
  let ?w = "fold ?G (rev [?n - d ..< ?n]) v"
  let ?k = "?n - Suc d"
  from Suc have ih: "length ?w = ?n"
      "\<forall>i. ?n - d - 1 \<le> i \<and> i < ?n \<longrightarrow> ?w ! i = or_from v i"
      "\<forall>i. i < ?n - d - 1 \<longrightarrow> ?w ! i = v ! i"
    by simp_all
  have k: "0 < ?k" "?k < ?n" "Suc ?k = ?n - d" "?n - d - 1 = ?k"
    using Suc.prems by simp_all
  have "[?k ..< ?n] = ?k # [?n - d ..< ?n]"
    using k by (simp add: upt_conv_Cons)
  then have "fold ?G (rev [?k ..< ?n]) v = ?G ?k ?w"
    by simp
  also have "\<dots> = ?w[?k - 1 := bitwise_or (v ! (?k - 1)) (or_from v ?k)]"
    using ih k by simp
  finally have step: "fold ?G (rev [?k ..< ?n]) v = ?w[?k - 1 := bitwise_or (v ! (?k - 1)) (or_from v ?k)]" .
  have of: "or_from v (?k - 1) = bitwise_or (v ! (?k - 1)) (or_from v ?k)"
  proof -
    have e: "Suc (?k - 1) = ?k" and l: "Suc (?k - 1) < ?n"
      using k by simp_all
    show ?thesis
      by (subst or_from.simps) (simp only: e k(2) if_True)
  qed
  show ?case
    unfolding step
  proof (intro conjI allI impI)
    show "length (?w[?k - 1 := bitwise_or (v ! (?k - 1)) (or_from v ?k)]) = ?n"
      using ih by simp
  next
    fix i assume "?n - Suc d - 1 \<le> i \<and> i < ?n"
    then show "?w[?k - 1 := bitwise_or (v ! (?k - 1)) (or_from v ?k)] ! i = or_from v i"
      using ih k of by (cases "i = ?k - 1") (auto simp: nth_list_update)
  next
    fix i assume "i < ?n - Suc d - 1"
    then show "?w[?k - 1 := bitwise_or (v ! (?k - 1)) (or_from v ?k)] ! i = v ! i"
      using ih k by (auto simp: nth_list_update)
  qed
qed

lemma backward_buffer_length: "length (backward_buffer v) = length v"
proof (cases "v = []")
  case True then show ?thesis by (simp add: backward_buffer_def)
next
  case False
  then have "length v - (length v - 1) = 1" by (cases v) simp_all
  then show ?thesis
    using backward_fold_inv [of "length v - 1" v] False by (simp add: backward_buffer_def)
qed

lemma backward_buffer_nth:
  assumes "i < length v"
  shows "backward_buffer v ! i = or_from v i"
proof -
  have "length v - (length v - 1) = 1" using assms by simp
  then show ?thesis
    using backward_fold_inv [of "length v - 1" v] assms by (simp add: backward_buffer_def)
qed

lemma fold_merge_heap:
  "r < length h \<Longrightarrow> f \<noteq> r \<Longrightarrow> s \<noteq> r \<Longrightarrow>
   fold (\<lambda>i h. set_slice r i (bitwise_and (get_slice f i h) (get_slice s i h)) h) js h
     = h[r := fold (\<lambda>i v. v[i := bitwise_and (h ! f ! i) (h ! s ! i)]) js (h ! r)]"
proof (induction js arbitrary: h)
  case Nil
  then show ?case by simp
next
  case (Cons j js)
  let ?h' = "set_slice r j (bitwise_and (get_slice f j h) (get_slice s j h)) h"
  have l: "r < length ?h'" and f: "?h' ! f = h ! f" and s: "?h' ! s = h ! s"
    and r: "?h' ! r = (h ! r)[j := bitwise_and (h ! f ! j) (h ! s ! j)]"
    using Cons.prems by (simp_all add: set_slice_def get_slice_def)
  have o: "?h'[r := x] = h[r := x]" for x
    by (simp add: set_slice_def)
  show ?case
    using Cons.IH [OF l Cons.prems(2,3)] by (simp only: fold_Cons o_apply f s r o)
qed

lemma fold_update_map:
  "k \<le> length v \<Longrightarrow> fold (\<lambda>i v. v[i := g i]) [0 ..< k] v = map g [0 ..< k] @ drop k v"
proof (induction k)
  case 0
  then show ?case by simp
next
  case (Suc k)
  then have "fold (\<lambda>i v. v[i := g i]) [0 ..< Suc k] v = (map g [0 ..< k] @ drop k v)[k := g k]"
    by simp
  also have "\<dots> = map g [0 ..< k] @ (drop k v)[0 := g k]"
    by (simp add: list_update_append)
  also have "(drop k v)[0 := g k] = g k # drop (Suc k) v"
    using Suc.prems by (simp add: Cons_nth_drop_Suc [symmetric])
  finally show ?case by simp
qed

lemma merge_sweeps_buffer:
  assumes "r < length h" "f \<noteq> r" "s \<noteq> r"
  shows "merge_sweeps f s r h
     = h[r := map (\<lambda>i. bitwise_and (h ! f ! i) (h ! s ! i)) [0 ..< length (h ! r)]]"
  unfolding merge_sweeps_def fold_merge_heap [OF assms]
  by (simp add: fold_update_map)

lemma frame_heap:
  assumes "a < length h"
  shows "reconstruct_gg_areas_frame a h =
     \<lparr>first_arr = length h, second_arr = Suc (length h), reconstructed_arr = Suc (Suc (length h)),
      final_heap = h @ [forward_buffer (h ! a), backward_buffer (h ! a),
                        map (\<lambda>i. bitwise_and (forward_buffer (h ! a) ! i) (backward_buffer (h ! a) ! i))
                            [0 ..< length (h ! a)]]\<rparr>"
proof -
  let ?m = "h ! a"
  let ?h3 = "h @ [?m, ?m, ?m]"
  have h4: "forward_sweep (length h) ?h3 = h @ [forward_buffer ?m, ?m, ?m]"
    by (simp add: forward_sweep_buffer)
  have h5: "backward_sweep (Suc (length h)) (h @ [forward_buffer ?m, ?m, ?m])
      = h @ [forward_buffer ?m, backward_buffer ?m, ?m]"
    by (simp add: backward_sweep_buffer nth_append list_update_append)
  have h6: "merge_sweeps (length h) (Suc (length h)) (Suc (Suc (length h)))
               (h @ [forward_buffer ?m, backward_buffer ?m, ?m])
      = h @ [forward_buffer ?m, backward_buffer ?m,
             map (\<lambda>i. bitwise_and (forward_buffer ?m ! i) (backward_buffer ?m ! i)) [0 ..< length ?m]]"
    by (simp add: merge_sweeps_buffer nth_append list_update_append)
  show ?thesis
    using assms
    by (simp add: reconstruct_gg_areas_frame_def copy_def nth_append h4 h5 h6)
qed

lemma has_shape_nth:
  "has_shape (n, d) v \<Longrightarrow> i < n \<Longrightarrow> slice_shape d (v ! i)"
  by (simp add: has_shape_def list_all_length)

lemma or_upto_shape:
  "has_shape (n, d) v \<Longrightarrow> i < n \<Longrightarrow> slice_shape d (or_upto v i)"
  by (induction i) (simp_all add: has_shape_nth bitwise_or_def zip_slice_shape)

lemma or_from_shape:
  "has_shape (n, d) v \<Longrightarrow> i < n \<Longrightarrow> slice_shape d (or_from v i)"
proof (induction v i rule: or_from.induct)
  case (1 v i)
  show ?case
  proof (cases "Suc i < length v")
    case True
    then have "slice_shape d (or_from v (Suc i))"
      using 1 by (simp add: has_shape_def)
    then show ?thesis
      using True 1(2,3)
      by (subst or_from.simps) (simp add: has_shape_nth bitwise_or_def zip_slice_shape)
  next
    case False
    then show ?thesis
      using 1(2,3) by (subst or_from.simps) (simp add: has_shape_nth)
  qed
qed

lemma or_upto_bit:
  assumes "has_shape (n, rows, cols) v" "r < rows" "c < cols"
  shows "i < n \<Longrightarrow> bit (or_upto v i ! r ! c) b \<longleftrightarrow> (\<exists>j\<le>i. bit (v ! j ! r ! c) b)"
proof (induction i)
  case 0
  then show ?case by simp
next
  case (Suc i)
  then have ih: "bit (or_upto v i ! r ! c) b \<longleftrightarrow> (\<exists>j\<le>i. bit (v ! j ! r ! c) b)"
    by simp
  have "or_upto v (Suc i) ! r ! c = (or_upto v i ! r ! c) OR (v ! Suc i ! r ! c)"
    using assms Suc.prems or_upto_shape [OF assms(1), of i] has_shape_nth [OF assms(1), of "Suc i"]
    by (simp add: bitwise_or_def zip_slice_nth [where d = "(rows, cols)"])
  then show ?case
    using ih by (auto simp: bit_or_iff le_Suc_eq)
qed

lemma or_from_bit:
  "has_shape (n, rows, cols) v \<Longrightarrow> r < rows \<Longrightarrow> c < cols \<Longrightarrow> i < n \<Longrightarrow>
   bit (or_from v i ! r ! c) b \<longleftrightarrow> (\<exists>j. i \<le> j \<and> j < n \<and> bit (v ! j ! r ! c) b)"
proof (induction v i rule: or_from.induct)
  case (1 v i)
  have n: "length v = n" using 1(2) by (simp add: has_shape_def)
  show ?case
  proof (cases "Suc i < length v")
    case True
    then have ih: "bit (or_from v (Suc i) ! r ! c) b \<longleftrightarrow> (\<exists>j. Suc i \<le> j \<and> j < n \<and> bit (v ! j ! r ! c) b)"
      using 1 n by simp
    have "or_from v i ! r ! c = (v ! i ! r ! c) OR (or_from v (Suc i) ! r ! c)"
      using True 1(2-) n or_from_shape [OF 1(2), of "Suc i"] has_shape_nth [OF 1(2), of i]
      by (subst or_from.simps) (simp add: bitwise_or_def zip_slice_nth [where d = "(rows, cols)"])
    moreover have "(\<exists>j. i \<le> j \<and> j < n \<and> bit (v ! j ! r ! c) b)
        \<longleftrightarrow> bit (v ! i ! r ! c) b \<or> (\<exists>j. Suc i \<le> j \<and> j < n \<and> bit (v ! j ! r ! c) b)"
      using 1(5) by (metis Suc_leI le_neq_implies_less order_refl Suc_leD)
    ultimately show ?thesis
      using ih by (simp add: bit_or_iff)
  next
    case False
    then have e: "or_from v i = v ! i"
      by (subst or_from.simps) simp
    have "j = i" if "i \<le> j" "j < n" for j
      using that False n by simp
    then show ?thesis
      unfolding e using 1(5) by auto
  qed
qed

lemma forward_buffer_shape:
  "has_shape (n, d) v \<Longrightarrow> has_shape (n, d) (forward_buffer v)"
  using or_upto_shape [of n d v]
  by (simp add: has_shape_def list_all_length forward_buffer_length forward_buffer_nth)

lemma backward_buffer_shape:
  "has_shape (n, d) v \<Longrightarrow> has_shape (n, d) (backward_buffer v)"
  using or_from_shape [of n d v]
  by (simp add: has_shape_def list_all_length backward_buffer_length backward_buffer_nth)

lemma merged_buffer_shape:
  assumes "has_shape (n, d) v"
  shows "has_shape (n, d) (merged_buffer v)"
proof -
  have n: "length v = n" using assms by (simp add: has_shape_def)
  have "slice_shape d (bitwise_and (forward_buffer v ! i) (backward_buffer v ! i))" if "i < n" for i
    using that n or_upto_shape [OF assms that] or_from_shape [OF assms that]
    by (simp add: forward_buffer_nth backward_buffer_nth bitwise_and_def zip_slice_shape)
  then show ?thesis
    using n by (simp add: has_shape_def merged_buffer_def list_all_length)
qed

lemma frame_heap_buffers:
  assumes "a < length h"
  shows "reconstruct_gg_areas_frame a h =
     \<lparr>first_arr = length h, second_arr = Suc (length h), reconstructed_arr = Suc (Suc (length h)),
      final_heap = h @ [forward_buffer (h ! a), backward_buffer (h ! a), merged_buffer (h ! a)]\<rparr>"
  using frame_heap [OF assms] by (simp add: merged_buffer_def)

lemma merged_buffer_bit:
  assumes "has_shape (n, rows, cols) v" "i < n" "r < rows" "c < cols"
  shows "bit (merged_buffer v ! i ! r ! c) b \<longleftrightarrow>
     (\<exists>j\<le>i. bit (v ! j ! r ! c) b) \<and> (\<exists>j. i \<le> j \<and> j < n \<and> bit (v ! j ! r ! c) b)"
proof -
  have n: "length v = n" using assms(1) by (simp add: has_shape_def)
  have "merged_buffer v ! i ! r ! c = (or_upto v i ! r ! c) AND (or_from v i ! r ! c)"
    using assms n or_upto_shape [OF assms(1,2)] or_from_shape [OF assms(1,2)]
    by (simp add: merged_buffer_def forward_buffer_nth backward_buffer_nth bitwise_and_def
          zip_slice_nth [where d = "(rows, cols)"])
  then show ?thesis
    using or_upto_bit [OF assms(1,3,4,2)] or_from_bit [OF assms(1,3,4,2)]
    by (simp add: bit_and_iff)
qed

lemma binary_volume_nth:
  assumes "binary_volume x v" "has_shape (n, rows, cols) v" "i < n" "r < rows" "c < cols"
  shows "v ! i ! r ! c = 0 \<or> v ! i ! r ! c = x"
proof -
  have "length v = n" "length (v ! i) = rows" "length (v ! i ! r) = cols"
    using assms(2-) by (simp_all add: has_shape_def slice_shape_def list_all_length)
  then show ?thesis
    using assms by (simp add: binary_volume_def list_all_length)
qed

lemma merged_buffer_binary:
  assumes "binary_volume x v" "has_shape (n, rows, cols) v" "i < n" "r < rows" "c < cols"
  shows "merged_buffer v ! i ! r ! c =
     (if (\<exists>j\<le>i. v ! j ! r ! c \<noteq> 0) \<and> (\<exists>j. i \<le> j \<and> j < n \<and> v ! j ! r ! c \<noteq> 0) then x else 0)"
proof (rule bit_eqI)
  fix b
  have px: "bit (v ! j ! r ! c) b \<longleftrightarrow> v ! j ! r ! c \<noteq> 0 \<and> bit x b" if "j < n" for j
    using binary_volume_nth [OF assms(1,2) that assms(4,5)] by auto
  have "(\<exists>j\<le>i. bit (v ! j ! r ! c) b) \<longleftrightarrow> (\<exists>j\<le>i. v ! j ! r ! c \<noteq> 0) \<and> bit x b"
    using px assms(3) by (meson le_less_trans)
  moreover have "(\<exists>j. i \<le> j \<and> j < n \<and> bit (v ! j ! r ! c) b)
      \<longleftrightarrow> (\<exists>j. i \<le> j \<and> j < n \<and> v ! j ! r ! c \<noteq> 0) \<and> bit x b"
    using px by blast
  ultimately show "bit (merged_buffer v ! i ! r ! c) b =
      bit (if (\<exists>j\<le>i. v ! j ! r ! c \<noteq> 0) \<and> (\<exists>j. i \<le> j \<and> j < n \<and> v ! j ! r ! c \<noteq> 0) then x else 0) b"
    unfolding merged_buffer_bit [OF assms(2-)] by auto
qed

lemma no_gaps_nth:
  assumes "no_gaps (n, rows, cols) v" "has_shape (n, rows, cols) v" "r < rows" "c < cols"
    "j \<le> i" "i \<le> k" "k < n" "v ! j ! r ! c \<noteq> 0" "v ! k ! r ! c \<noteq> 0"
  shows "v ! i ! r ! c \<noteq> 0"
proof -
  let ?xs = "column v r c"
  have n: "length v = n" using assms(2) by (simp add: has_shape_def)
  have "contiguous_support ?xs"
    using assms(1,3,4) by (simp add: no_gaps_def list_all_iff)
  then have cs: "\<forall>k\<in>set [0 ..< length ?xs]. \<forall>i\<in>set [0 ..< Suc k]. \<forall>j\<in>set [0 ..< Suc i].
      ?xs ! j \<noteq> 0 \<and> ?xs ! k \<noteq> 0 \<longrightarrow> ?xs ! i \<noteq> 0"
    unfolding contiguous_support_def list_all_iff .
  have mem: "k \<in> set [0 ..< length ?xs]" "i \<in> set [0 ..< Suc k]" "j \<in> set [0 ..< Suc i]"
    using assms(5-7) n by (auto simp: column_def)
  from cs mem have "?xs ! j \<noteq> 0 \<and> ?xs ! k \<noteq> 0 \<longrightarrow> ?xs ! i \<noteq> 0"
    by blast
  moreover have "?xs ! q = v ! q ! r ! c" if "q < n" for q
    using that n by (simp add: column_def)
  ultimately show ?thesis
    using assms(5-) by simp
qed

text \<open>
  C2. The forward sweep leaves in slice \<open>k + 1\<close> the OR of the input slice and the already
  updated slice \<open>k\<close>, the backward sweep does the same from the end, and the returned slice is
  the AND of the two swept slices. So every bit of the sample returned at slice \<open>i\<close> and pixel
  \<open>(r, c)\<close> is set if and only if some slice \<open>j \<le> i\<close> and some slice \<open>j \<ge> i\<close> of the input have
  that bit set at that pixel; for a mask volume (samples 0 or the one foreground value \<open>v\<close>) the
  returned sample is foreground if and only if some slice \<open>j \<le> i\<close> and some slice \<open>j \<ge> i\<close> of the
  input are foreground at that pixel.
\<close>

theorem reconstruct_gg_areas_foreground:
  assumes "mask_arr < length h" and "has_shape (n, rows, cols) (h ! mask_arr)"
  shows "let fr = reconstruct_gg_areas_frame mask_arr h;
             m = h ! mask_arr;
             F = final_heap fr ! first_arr fr;
             B = final_heap fr ! second_arr fr;
             R = final_heap fr ! reconstructed_arr fr
         in reconstruct_gg_areas mask_arr h = (reconstructed_arr fr, final_heap fr) \<and>
            (0 < n \<longrightarrow> F ! 0 = m ! 0) \<and>
            (\<forall>k. Suc k < n \<longrightarrow> F ! Suc k = bitwise_or (F ! k) (m ! Suc k)) \<and>
            (0 < n \<longrightarrow> B ! (n - 1) = m ! (n - 1)) \<and>
            (\<forall>k. Suc k < n \<longrightarrow> B ! k = bitwise_or (m ! k) (B ! Suc k)) \<and>
            (\<forall>k<n. R ! k = bitwise_and (F ! k) (B ! k)) \<and>
            (\<forall>i<n. \<forall>r<rows. \<forall>c<cols. \<forall>b.
               bit (R ! i ! r ! c) b =
               ((\<exists>j\<le>i. bit (m ! j ! r ! c) b) \<and> (\<exists>j. i \<le> j \<and> j < n \<and> bit (m ! j ! r ! c) b))) \<and>
            (binary_volume v m \<longrightarrow>
              (\<forall>i<n. \<forall>r<rows. \<forall>c<cols.
                 (R ! i ! r ! c \<noteq> 0) =
                 ((\<exists>j\<le>i. m ! j ! r ! c \<noteq> 0) \<and> (\<exists>j. i \<le> j \<and> j < n \<and> m ! j ! r ! c \<noteq> 0))))"
proof -
  let ?m = "h ! mask_arr"
  have n: "length ?m = n" using assms(2) by (simp add: has_shape_def)
  have F0: "forward_buffer ?m ! 0 = ?m ! 0" if "0 < n"
    using that n by (simp add: forward_buffer_nth)
  have FS: "forward_buffer ?m ! Suc k = bitwise_or (forward_buffer ?m ! k) (?m ! Suc k)"
    if "Suc k < n" for k
    using that n by (simp add: forward_buffer_nth)
  have Bn: "backward_buffer ?m ! (n - 1) = ?m ! (n - 1)" if "0 < n"
    using that n by (simp add: backward_buffer_nth) (subst or_from.simps, simp)
  have BS: "backward_buffer ?m ! k = bitwise_or (?m ! k) (backward_buffer ?m ! Suc k)"
    if "Suc k < n" for k
    using that n by (simp add: backward_buffer_nth) (subst or_from.simps, simp)
  have R: "merged_buffer ?m ! k = bitwise_and (forward_buffer ?m ! k) (backward_buffer ?m ! k)"
    if "k < n" for k
    using that n by (simp add: merged_buffer_def)
  have bits: "bit (merged_buffer ?m ! i ! r ! c) b =
      ((\<exists>j\<le>i. bit (?m ! j ! r ! c) b) \<and> (\<exists>j. i \<le> j \<and> j < n \<and> bit (?m ! j ! r ! c) b))"
    if "i < n" "r < rows" "c < cols" for i r c b
    using merged_buffer_bit [OF assms(2) that] .
  have px: "(merged_buffer ?m ! i ! r ! c \<noteq> 0) =
      ((\<exists>j\<le>i. ?m ! j ! r ! c \<noteq> 0) \<and> (\<exists>j. i \<le> j \<and> j < n \<and> ?m ! j ! r ! c \<noteq> 0))"
    if bin: "binary_volume v ?m" and "i < n" "r < rows" "c < cols" for i r c
  proof (cases "v = 0")
    case True
    have "?m ! j ! r ! c = 0" if "j < n" for j
      using binary_volume_nth [OF bin assms(2) that \<open>r < rows\<close> \<open>c < cols\<close>] True by simp
    moreover have "merged_buffer ?m ! i ! r ! c = 0"
      using merged_buffer_binary [OF bin assms(2) that(2-)] True by simp
    ultimately show ?thesis
      by auto
  next
    case False
    then show ?thesis
      using merged_buffer_binary [OF bin assms(2) that(2-)] by simp
  qed
  show ?thesis
    unfolding Let_def frame_heap_buffers [OF assms(1)] reconstruct_gg_areas_def
    using F0 FS Bn BS R bits px by (simp add: nth_append)
qed

theorem reconstruct_gg_areas_foreground_witness:
  "(case reconstruct_gg_areas 0 [[[[1, 0]], [[0, 0]], [[1, 1]]]] of
      (res, h') \<Rightarrow> h' ! res ! 1 ! 0 ! 0 \<noteq> 0 \<and> h' ! res ! 1 ! 0 ! 1 = 0)"
proof -
  let ?vol = "[[[1, 0]], [[0, 0]], [[1, 1]]] :: u8 volume"
  let ?fr = "reconstruct_gg_areas_frame 0 [?vol]"
  let ?R = "final_heap ?fr ! reconstructed_arr ?fr"
  have 1: "0 < length [?vol]" by simp
  have 2: "has_shape (3, 1, 2) ([?vol] ! 0)"
    by (simp add: has_shape_def slice_shape_def)
  have 3: "binary_volume 1 ([?vol] ! 0)"
    by (simp add: binary_volume_def)
  note t = reconstruct_gg_areas_foreground [OF 1 2, where v = 1, unfolded Let_def]
  from t have res: "reconstruct_gg_areas 0 [?vol] = (reconstructed_arr ?fr, final_heap ?fr)"
    by (rule conjunct1)
  from t have "binary_volume 1 ([?vol] ! 0) \<longrightarrow> (\<forall>i<3. \<forall>r<1. \<forall>c<2. (?R ! i ! r ! c \<noteq> 0) =
      ((\<exists>j\<le>i. [?vol] ! 0 ! j ! r ! c \<noteq> 0) \<and> (\<exists>j. i \<le> j \<and> j < 3 \<and> [?vol] ! 0 ! j ! r ! c \<noteq> 0)))"
    by (elim conjE)
  with 3 have px: "\<forall>i<3. \<forall>r<1. \<forall>c<2. (?R ! i ! r ! c \<noteq> 0) =
      ((\<exists>j\<le>i. [?vol] ! 0 ! j ! r ! c \<noteq> 0) \<and> (\<exists>j. i \<le> j \<and> j < 3 \<and> [?vol] ! 0 ! j ! r ! c \<noteq> 0))"
    by (rule rev_mp)
  have a: "\<exists>j\<le>1. [?vol] ! 0 ! j ! 0 ! 0 \<noteq> 0"
    by (rule exI [of _ 0]) simp
  have b: "\<exists>j. 1 \<le> j \<and> j < 3 \<and> [?vol] ! 0 ! j ! 0 ! 0 \<noteq> 0"
    by (rule exI [of _ 2]) simp
  have c: "\<not> (\<exists>j\<le>1. [?vol] ! 0 ! j ! 0 ! 1 \<noteq> 0)"
  proof (intro notI, elim exE conjE)
    fix j :: nat
    assume j: "j \<le> 1" and nz: "[?vol] ! 0 ! j ! 0 ! 1 \<noteq> 0"
    from j have "j = 0 \<or> j = 1" by arith
    then show False using nz by auto
  qed
  have i: "(1::nat) < 3" "(0::nat) < 1" "(0::nat) < 2" "(1::nat) < 2"
    by simp_all
  have "?R ! 1 ! 0 ! 0 \<noteq> 0"
    using px [rule_format, OF i(1) i(2) i(3)] a b by blast
  moreover have "?R ! 1 ! 0 ! 1 = 0"
    using px [rule_format, OF i(1) i(2) i(4)] c by blast
  ultimately show ?thesis
    by (simp add: res)
qed

text \<open>
  C7. A binary volume with no gap along the slice axis is a fixed point of
  \<open>reconstruct_gg_areas\<close>: the returned array holds the input volume.
\<close>

theorem reconstruct_gg_areas_fixed_point:
  assumes "mask_arr < length h" and "has_shape (n, rows, cols) (h ! mask_arr)"
    and "binary_volume v (h ! mask_arr)" and "no_gaps (n, rows, cols) (h ! mask_arr)"
  shows "(case reconstruct_gg_areas mask_arr h of (res, h') \<Rightarrow> h' ! res = h ! mask_arr)"
proof -
  let ?m = "h ! mask_arr"
  have sh: "has_shape (n, rows, cols) (merged_buffer ?m)"
    using assms(2) by (rule merged_buffer_shape)
  have px: "merged_buffer ?m ! i ! r ! c = ?m ! i ! r ! c"
    if "i < n" "r < rows" "c < cols" for i r c
  proof -
    have "((\<exists>j\<le>i. ?m ! j ! r ! c \<noteq> 0) \<and> (\<exists>j. i \<le> j \<and> j < n \<and> ?m ! j ! r ! c \<noteq> 0))
        = (?m ! i ! r ! c \<noteq> 0)"
      using no_gaps_nth [OF assms(4,2) that(2,3)] that(1) by blast
    then show ?thesis
      using merged_buffer_binary [OF assms(3,2) that] binary_volume_nth [OF assms(3,2) that]
      by auto
  qed
  have len: "length (merged_buffer ?m) = n" "length ?m = n"
    using sh assms(2) by (simp_all add: has_shape_def)
  have rows: "length (merged_buffer ?m ! i) = rows" "length (?m ! i) = rows" if "i < n" for i
    using that sh assms(2) by (simp_all add: has_shape_def slice_shape_def list_all_length)
  have cols: "length (merged_buffer ?m ! i ! r) = cols" "length (?m ! i ! r) = cols"
    if "i < n" "r < rows" for i r
    using that sh assms(2) by (simp_all add: has_shape_def slice_shape_def list_all_length)
  have "merged_buffer ?m = ?m"
    by (rule nth_equalityI, simp add: len, rule nth_equalityI, simp add: len rows,
        rule nth_equalityI, simp add: len rows cols, simp add: len rows cols px)
  then show ?thesis
    by (simp add: reconstruct_gg_areas_def frame_heap_buffers [OF assms(1)] nth_append)
qed

theorem reconstruct_gg_areas_fixed_point_witness:
  "(case reconstruct_gg_areas 0 [[[[1, 0]], [[1, 0]], [[0, 1]]]] of
      (res, h') \<Rightarrow> h' ! res = [[[1, 0]], [[1, 0]], [[0, 1]]])"
proof -
  let ?vol = "[[[1, 0]], [[1, 0]], [[0, 1]]] :: u8 volume"
  have 1: "0 < length [?vol]" by simp
  have 2: "has_shape (3, 1, 2) ([?vol] ! 0)"
    by (simp add: has_shape_def slice_shape_def)
  have 3: "binary_volume 1 ([?vol] ! 0)"
    by (simp add: binary_volume_def)
  have 4: "no_gaps (3, 1, 2) ([?vol] ! 0)"
    by (simp add: no_gaps_def contiguous_support_def column_def) (simp add: list_all_iff)
  show ?thesis
    using reconstruct_gg_areas_fixed_point [OF 1 2 3 4] by simp
qed

text \<open>
  C8. \<open>reconstruct_gg_areas\<close> leaves the buffer of its input, and every buffer that existed
  before the call, as it was: it writes only into the three copies it allocates. The
  forward-swept, the backward-swept and the returned volume have the shape of the input.
\<close>

theorem reconstruct_gg_areas_input_unchanged:
  assumes "mask_arr < length h" and "has_shape d (h ! mask_arr)"
  shows "let fr = reconstruct_gg_areas_frame mask_arr h; h' = final_heap fr
         in reconstruct_gg_areas mask_arr h = (reconstructed_arr fr, h') \<and>
            h' ! mask_arr = h ! mask_arr \<and>
            take (length h) h' = h \<and>
            length h \<le> first_arr fr \<and> first_arr fr < second_arr fr \<and>
            second_arr fr < reconstructed_arr fr \<and> reconstructed_arr fr < length h' \<and>
            has_shape d (h' ! first_arr fr) \<and>
            has_shape d (h' ! second_arr fr) \<and>
            has_shape d (h' ! reconstructed_arr fr)"
proof -
  obtain n d' where d: "d = (n, d')" by (cases d)
  show ?thesis
    unfolding Let_def frame_heap_buffers [OF assms(1)] reconstruct_gg_areas_def
    using assms forward_buffer_shape [of n d' "h ! mask_arr"]
      backward_buffer_shape [of n d' "h ! mask_arr"] merged_buffer_shape [of n d' "h ! mask_arr"]
    by (simp add: d nth_append)
qed

theorem reconstruct_gg_areas_input_unchanged_witness:
  "(let fr = reconstruct_gg_areas_frame 0 [[[[1, 0]], [[0, 0]], [[1, 1]]]]; h' = final_heap fr
    in h' ! 0 = [[[1, 0]], [[0, 0]], [[1, 1]]] \<and>
       has_shape (3, 1, 2) (h' ! first_arr fr) \<and>
       has_shape (3, 1, 2) (h' ! second_arr fr) \<and>
       has_shape (3, 1, 2) (h' ! reconstructed_arr fr))"
proof -
  let ?vol = "[[[1, 0]], [[0, 0]], [[1, 1]]] :: u8 volume"
  have 1: "0 < length [?vol]" by simp
  have 2: "has_shape (3, 1, 2) ([?vol] ! 0)"
    by (simp add: has_shape_def slice_shape_def)
  show ?thesis
    using reconstruct_gg_areas_input_unchanged [OF 1 2] by (simp add: Let_def)
qed


section \<open>Properties of the bit-plane recomposition\<close>

lemma zip_map_same: "map2 f (map g xs) (map h xs) = map (\<lambda>x. f (g x) (h x)) xs"
  by (induction xs) simp_all

lemma zip_volume_map_same:
  "zip_volume f (map_volume g vol) (map_volume h vol) = map_volume (\<lambda>x. f (g x) (h x)) vol"
  by (simp add: zip_volume_def zip_slice_def map_volume_def zip_map_same)

lemma map_volume_comp: "map_volume f (map_volume g vol) = map_volume (\<lambda>x. f (g x)) vol"
  by (simp add: map_volume_def comp_def)

lemma gl2bit_nth:
  "k < 8 \<Longrightarrow> gl2bit stack ! k = map_volume (\<lambda>x. if bit x (7 - k) then 1 else 0) stack"
  by (simp add: gl2bit_def)

lemma gl2bit_length: "length (gl2bit stack) = 8"
  by (simp add: gl2bit_def)

lemma take_planes_three:
  assumes "1 \<le> b1" "b1 \<le> 8" "1 \<le> b2" "b2 \<le> 8" "1 \<le> b3" "b3 \<le> 8"
  shows "take_planes (gl2bit stack) [8 - b1, 8 - b2, 8 - b3] =
     Inr [map_volume (\<lambda>x. if bit x (nat (b1 - 1)) then 1 else 0) stack,
          map_volume (\<lambda>x. if bit x (nat (b2 - 1)) then 1 else 0) stack,
          map_volume (\<lambda>x. if bit x (nat (b3 - 1)) then 1 else 0) stack]"
proof -
  have k: "nat (8 - b) < 8" "7 - nat (8 - b) = nat (b - 1)" if "1 \<le> b" "b \<le> 8" for b :: int
    using that by simp_all
  show ?thesis
    using assms by (simp add: take_planes_def gl2bit_length gl2bit_nth k)
qed

lemma bit_plane_slices_three:
  assumes "1 \<le> b1" "b1 \<le> 8" "1 \<le> b2" "b2 \<le> 8" "1 \<le> b3" "b3 \<le> 8"
  shows "bit_plane_slices stack [b1, b2, b3] = Inr (map_volume (recompose [b1, b2, b3]) stack)"
proof -
  let ?P = "\<lambda>b. map_volume (\<lambda>x. if bit x (nat (b - 1)) then 1 else 0 :: u8) stack"
  let ?w = "\<lambda>b :: int. 2 ^ nat (b - 1) :: int"
  have sg: "significance_of [b1, b2, b3] = Inr [?w b1, ?w b2, ?w b3]"
    using assms by (simp add: significance_of_def)
  have rs: "reshape_3111 [?w b1, ?w b2, ?w b3] = Inr [?w b1, ?w b2, ?w b3]"
    by (simp add: reshape_3111_def)
  have w: "uint (if c then 1 else 0 :: u8) * p = (if c then p else 0)" for c p
    by simp
  have rc: "recompose [b1, b2, b3] = (\<lambda>x. word_of_int
      (uint (if bit x (nat (b1 - 1)) then 1 else 0 :: u8) * ?w b1
       + uint (if bit x (nat (b2 - 1)) then 1 else 0 :: u8) * ?w b2
       + uint (if bit x (nat (b3 - 1)) then 1 else 0 :: u8) * ?w b3))"
    unfolding w by (rule ext) (simp add: recompose_def)
  have sm: "astype_uint8 (sum_axis0 (weighted [?P b1, ?P b2, ?P b3] [?w b1, ?w b2, ?w b3]))
      = map_volume (recompose [b1, b2, b3]) stack"
    unfolding rc
    by (simp only: weighted_def astype_uint8_def zip.simps list.map list.case prod.case
        sum_axis0.simps foldl.simps map_volume_comp zip_volume_map_same)
  show ?thesis
    by (simp only: bit_plane_slices_def Let_def list.map take_planes_three [OF assms]
        sum.case sg rs sm)
qed

lemma bit_plane_slices_needs_three:
  assumes "length bits \<noteq> 3"
  shows "\<exists>e. bit_plane_slices stack bits = Inl e"
  using assms
  by (simp add: bit_plane_slices_def significance_of_def reshape_3111_def split: sum.splits)

lemma bit_plane_slices_index_error:
  assumes "\<exists>b\<in>set bits. b < 1 \<or> 16 < b"
  shows "bit_plane_slices stack bits = Inl IndexError"
proof -
  from assms obtain b where b: "b \<in> set bits" "b < 1 \<or> 16 < b"
    by blast
  have "\<not> (\<forall>i\<in>set (map (\<lambda>b. 8 - b) bits). - 8 \<le> i \<and> i < 8)"
  proof
    assume "\<forall>i\<in>set (map (\<lambda>b. 8 - b) bits). - 8 \<le> i \<and> i < 8"
    with b(1) have "- 8 \<le> 8 - b \<and> 8 - b < 8" by simp
    with b(2) show False by arith
  qed
  then have "\<not> list_all (\<lambda>i. - 8 \<le> i \<and> i < 8) (map (\<lambda>b. 8 - b) bits)"
    unfolding list_all_iff .
  then show ?thesis
    by (simp add: bit_plane_slices_def take_planes_def gl2bit_length)
qed

lemma bit_plane_slices_accepts:
  assumes "length bits = 3" and "\<forall>b\<in>set bits. 1 \<le> b \<and> b \<le> 16"
  shows "\<exists>out. bit_plane_slices stack bits = Inr out"
proof -
  have "list_all (\<lambda>i. - 8 \<le> i \<and> i < 8) (map (\<lambda>b. 8 - b) bits)"
    using assms(2) by (auto simp: list_all_iff)
  moreover have "bits \<noteq> []" using assms(1) by auto
  moreover have "list_all (\<lambda>i. 0 \<le> i - 1) bits"
    using assms(2) by (auto simp: list_all_iff)
  ultimately show ?thesis
    using assms(1)
    by (simp add: bit_plane_slices_def take_planes_def gl2bit_length significance_of_def
        reshape_3111_def)
qed

lemma recompose_msb: "recompose [8] x = (if bit x 7 then 128 else 0)"
  by (simp add: recompose_def)

text \<open>
  C3. For the single bit position 8 the recomposition is meant to give the most significant
  bit plane scaled by 128: 128 for the voxel 200. The call fails instead: the weights are
  reshaped to exactly three elements, so a selection of one bit position (of any number other
  than three) raises \<^verbatim>\<open>ValueError\<close>.
\<close>

theorem bit_plane_slices_msb_only_fails:
  "bit_plane_slices [[[200]]] [8] = Inl ValueError
   \<and> map_volume (recompose [8]) [[[200]]] = [[[128]]]"
  by (simp add: bit_plane_slices_def take_planes_def gl2bit_def significance_of_def
      reshape_3111_def map_volume_def recompose_def)


section \<open>Properties of spot removal and region selection\<close>

lemma map_err_Inr:
  "map_err f xs = Inr ys \<Longrightarrow> list_all2 (\<lambda>x y. f x = Inr y) xs ys"
proof (induction xs arbitrary: ys)
  case Nil
  then show ?case by simp
next
  case (Cons x xs)
  then show ?case
    by (auto split: sum.splits)
qed

lemma map_err_all_Inr:
  "(\<And>x. x \<in> set xs \<Longrightarrow> f x = Inr (g x)) \<Longrightarrow> map_err f xs = Inr (map g xs)"
  by (induction xs) simp_all

lemma set_where_binary:
  "list_all (list_all (\<lambda>x. x = 0 \<or> x = (255::int))) (set_where (\<lambda>x. x \<noteq> 255) 0 a)"
  by (auto simp: set_where_def list_all_iff)

lemma set_where_zero:
  "list_all (list_all (\<lambda>x. x = 0 \<or> x = (255::int))) (set_where (\<lambda>x. x \<noteq> 0) 0 a)"
  by (auto simp: set_where_def list_all_iff)

lemma select_slice_binary:
  "select_slice sort_values n_reg stat lab = Inr out \<Longrightarrow>
   list_all (list_all (\<lambda>x. x = 0 \<or> x = (255::int))) out"
  using set_where_binary set_where_zero
  by (auto simp: select_slice_def Let_def split: sum.splits if_splits)

text \<open>
  C9. Whenever \<open>select_greater_connected_regions\<close> returns, every sample of its output is 0
  or 255: the foreground value is the constant 255 of the code, not the foreground value of
  the input.
\<close>

theorem select_output_convention:
  assumes "select_greater_connected_regions analyze sort_values img n_reg = Inr out"
  shows "binary_volume 255 out"
proof -
  obtain m where m: "map_err (\<lambda>(stat, lab). select_slice sort_values n_reg stat lab)
        (zip (map (\<lambda>s. snd (analyze s)) img) (map (\<lambda>s. fst (analyze s)) img)) = Inr m"
    and out: "out = map_volume word_of_int m"
    using assms
    by (auto simp: select_greater_connected_regions_def connected_components_wStats_def
        split: sum.splits)
  have "list_all (list_all (\<lambda>x. x = 0 \<or> x = (255::int))) y" if "y \<in> set m" for y
  proof -
    from map_err_Inr [OF m] that obtain x where
      "(case x of (stat, lab) \<Rightarrow> select_slice sort_values n_reg stat lab) = Inr y"
      by (auto simp: list_all2_conv_all_nth in_set_conv_nth)
    then show ?thesis
      by (cases x) (auto dest: select_slice_binary)
  qed
  then have "\<forall>y\<in>set m. \<forall>r\<in>set y. \<forall>x\<in>set r. x = 0 \<or> x = 255"
    by (simp add: list_all_iff)
  then have "\<forall>y\<in>set m. \<forall>r\<in>set y. \<forall>x\<in>set r.
      (word_of_int x :: u8) = 0 \<or> (word_of_int x :: u8) = 255"
    by fastforce
  then show ?thesis
    unfolding out binary_volume_def map_volume_def
    by (simp add: list_all_iff)
qed

lemma select_slice_nonpositive:
  assumes "n_reg \<le> 0" and "0 \<in> set (index_of stat)"
  shows "select_slice sort_values n_reg stat lab = Inr (set_where (\<lambda>x. x \<noteq> 255) 0 lab)"
proof -
  have "nat n_reg = 0" using assms(1) by simp
  moreover have "n_reg - 1 < int k" for k using assms(1) by simp
  ultimately show ?thesis
    using assms(2) by (simp add: select_slice_def drop_index_def Let_def)
qed

lemma select_nonpositive:
  assumes "n_reg \<le> 0" and "\<forall>s\<in>set img. 0 \<in> set (index_of (snd (analyze s)))"
  shows "select_greater_connected_regions analyze sort_values img n_reg =
     Inr (map (\<lambda>s. map (map (\<lambda>x. if x = 255 then 255 else 0)) (fst (analyze s))) img)"
proof -
  let ?f = "\<lambda>(stat, lab). select_slice sort_values n_reg stat lab"
  let ?g = "\<lambda>(stat :: stats_table, lab). set_where (\<lambda>x. x \<noteq> 255) 0 lab"
  let ?xs = "zip (map (\<lambda>s. snd (analyze s)) img) (map (\<lambda>s. fst (analyze s)) img)"
  have xs: "?xs = map (\<lambda>s. (snd (analyze s), fst (analyze s))) img"
    by (simp add: zip_map_map zip_same_conv_map)
  have "?f x = Inr (?g x)" if "x \<in> set ?xs" for x
    using that assms unfolding xs by (auto simp: select_slice_nonpositive)
  then have "map_err ?f ?xs = Inr (map ?g ?xs)"
    by (rule map_err_all_Inr)
  then show ?thesis
    unfolding xs
    by (simp add: select_greater_connected_regions_def connected_components_wStats_def
        zip_map_map zip_same_conv_map map_volume_def set_where_def comp_def)
qed

lemma fold_update_at:
  "fold (\<lambda>j lab. lab[i := g j (lab ! i)]) js lab = lab[i := fold g js (lab ! i)]"
proof (cases "i < length lab")
  case True
  then show ?thesis
    by (induction js arbitrary: lab) simp_all
next
  case False
  then have "fold (\<lambda>j lab. lab[i := g j (lab ! i)]) js lab = lab"
    by (induction js arbitrary: lab) (simp_all add: list_update_beyond not_less)
  then show ?thesis using False by (simp add: list_update_beyond not_less)
qed

lemma fold_enumerate_update:
  "length xs = length lab \<Longrightarrow>
   fold (\<lambda>(i, x) l. l[i := G x (l ! i)]) (enumerate (length pre) xs) (pre @ lab)
     = pre @ map2 G xs lab"
proof (induction xs arbitrary: pre lab)
  case Nil
  then show ?case by simp
next
  case (Cons x xs)
  then obtain y ys where lab: "lab = y # ys" and len: "length xs = length ys"
    by (cases lab) simp_all
  have "fold (\<lambda>(i, x) l. l[i := G x (l ! i)]) (enumerate (length pre) (x # xs)) (pre @ lab)
      = fold (\<lambda>(i, x) l. l[i := G x (l ! i)]) (enumerate (length (pre @ [G x y])) xs)
          ((pre @ [G x y]) @ ys)"
    by (simp add: lab)
  also have "\<dots> = (pre @ [G x y]) @ map2 G xs ys"
    using len by (rule Cons.IH)
  finally show ?case by (simp add: lab)
qed

lemma fold_set_where:
  "fold (\<lambda>j l. set_where (\<lambda>x. x = j) (0::int) l) js l
     = map (map (\<lambda>x. if x \<in> set js then 0 else x)) l"
proof (induction js arbitrary: l)
  case Nil
  then show ?case by (simp add: map_idI)
next
  case (Cons j js)
  have "fold (\<lambda>j l. set_where (\<lambda>x. x = j) (0::int) l) (j # js) l
      = fold (\<lambda>j l. set_where (\<lambda>x. x = j) (0::int) l) js (set_where (\<lambda>x. x = j) 0 l)"
    by simp
  also have "\<dots> = map (map (\<lambda>x. if x \<in> set js then 0 else x)) (set_where (\<lambda>x. x = j) 0 l)"
    by (rule Cons.IH)
  also have "\<dots> = map (map (\<lambda>x. if x \<in> set (j # js) then 0 else x)) l"
    by (auto simp: set_where_def)
  finally show ?case .
qed

lemma remove_spots_eq:
  "remove_spots analyze img area =
     map (\<lambda>s. map (map (\<lambda>x. if x \<noteq> 0 \<and> x \<notin> set (query_area_lt area (snd (analyze s)))
                              then 1 else 0))
                 (fst (analyze s))) img"
proof -
  let ?G = "\<lambda>stat l. fold (\<lambda>j l. set_where (\<lambda>x. x = j) (0::int) l) (query_area_lt area stat) l"
  let ?labs = "map (\<lambda>s. fst (analyze s)) img"
  let ?stats = "map (\<lambda>s. snd (analyze s)) img"
  have body: "(\<lambda>(i, stat) lab.
        fold (\<lambda>j lab. lab[i := set_where (\<lambda>x. x = j) 0 (lab ! i)]) (query_area_lt area stat) lab)
      = (\<lambda>(i, stat) lab. lab[i := ?G stat (lab ! i)])"
    by (intro ext)
      (simp add: fold_update_at [where g = "\<lambda>j. set_where (\<lambda>x. x = j) 0"] split: prod.splits)
  have "fold (\<lambda>(i, stat) lab. lab[i := ?G stat (lab ! i)]) (enumerate (length ([] :: int volume)) ?stats)
          ([] @ ?labs) = [] @ map2 ?G ?stats ?labs"
    by (rule fold_enumerate_update) simp
  then have "fold (\<lambda>(i, stat) lab. lab[i := ?G stat (lab ! i)]) (enumerate 0 ?stats) ?labs
      = map (\<lambda>s. ?G (snd (analyze s)) (fst (analyze s))) img"
    by (simp add: zip_map_map zip_same_conv_map)
  then show ?thesis
    by (simp add: remove_spots_def connected_components_wStats_def body fold_set_where
        map_volume_def comp_def)
qed

lemma positions_iff:
  "p \<in> set (positions s) \<longleftrightarrow> fst p < length s \<and> snd p < length (s ! fst p)"
  by (cases p) (force simp: positions_def)

lemma positions_cong:
  assumes "map length a = map length b"
  shows "positions a = positions b"
proof -
  have l: "length a = length b"
    using assms by (rule map_eq_imp_length_eq)
  have "length (a ! r) = length (b ! r)" if "r < length a" for r
  proof -
    have "map length a ! r = map length b ! r" using assms by simp
    then show ?thesis using that l by simp
  qed
  then show ?thesis
    unfolding positions_def l [symmetric]
    by (intro arg_cong [where f = concat] map_cong) simp_all
qed

lemma px_map_map:
  "p \<in> set (positions a) \<Longrightarrow> px (map (map f) a) p = f (px a p)"
  by (simp add: positions_iff px_def)

lemma concat_positions: "map (px lab) (positions lab) = concat lab"
proof -
  have "map (px lab) (positions lab)
      = concat (map (\<lambda>r. map (\<lambda>c. lab ! r ! c) [0 ..< length (lab ! r)]) [0 ..< length lab])"
    by (simp add: positions_def map_concat comp_def px_def)
  also have "\<dots> = concat (map (\<lambda>r. lab ! r) [0 ..< length lab])"
    by (simp add: map_nth)
  also have "\<dots> = concat lab"
    by (simp add: map_nth)
  finally show ?thesis .
qed

lemma count_label_positions:
  "count_label j lab = length (filter (\<lambda>p. px lab p = j) (positions lab))"
proof -
  have "count_label j lab = length (filter (\<lambda>x. x = j) (map (px lab) (positions lab)))"
    by (simp add: count_label_def concat_positions)
  then show ?thesis
    by (simp add: filter_map comp_def)
qed

lemma length_filter_mono:
  "(\<And>p. p \<in> set ps \<Longrightarrow> P p \<Longrightarrow> Q p) \<Longrightarrow> length (filter P ps) \<le> length (filter Q ps)"
  by (induction ps) auto

lemma reach_inside: "reach adj inside p q \<Longrightarrow> inside p \<and> inside q"
  by (induction rule: reach.induct) simp_all

lemma reach_same_value:
  assumes "reach adj inside p q"
    and "\<And>a b. inside a \<Longrightarrow> inside b \<Longrightarrow> adj a b \<Longrightarrow> f a = f b"
  shows "f q = f p"
  using assms(1)
proof (induction rule: reach.induct)
  case (reach_refl p)
  then show ?case by simp
next
  case (reach_step p q q')
  have "inside q" using reach_step.hyps(1) by (rule reach_inside [THEN conjunct2])
  then have "f q = f q'" using reach_step.hyps(3,2) by (rule assms(2))
  then have "f q' = f q" by (rule sym)
  also have "f q = f p" by (rule reach_step.IH)
  finally show ?case .
qed

lemma query_area_lt_iff:
  assumes "index_of stat = map int [0 ..< length stat]" and "0 \<le> x" and "x < int (length stat)"
  shows "x \<in> set (query_area_lt a stat) \<longleftrightarrow> AREA (snd (stat ! nat x)) < a"
proof -
  have fst: "fst (stat ! k) = int k" if "k < length stat" for k
  proof -
    have "index_of stat ! k = int k" using that by (simp add: assms(1))
    then show ?thesis using that by (simp add: index_of_def)
  qed
  have "x \<in> set (query_area_lt a stat)
      \<longleftrightarrow> (\<exists>k<length stat. fst (stat ! k) = x \<and> AREA (snd (stat ! k)) < a)"
    by (auto simp: query_area_lt_def in_set_conv_nth)
  also have "\<dots> \<longleftrightarrow> AREA (snd (stat ! nat x)) < a"
  proof
    assume "\<exists>k<length stat. fst (stat ! k) = x \<and> AREA (snd (stat ! k)) < a"
    then obtain k where k: "k < length stat" "fst (stat ! k) = x" "AREA (snd (stat ! k)) < a"
      by blast
    from k(1,2) have "nat x = k" by (simp add: fst)
    with k(3) show "AREA (snd (stat ! nat x)) < a" by simp
  next
    assume r: "AREA (snd (stat ! nat x)) < a"
    have "nat x < length stat" using assms(2,3) by simp
    moreover from this have "fst (stat ! nat x) = x" using assms(2) by (simp add: fst)
    ultimately show "\<exists>k<length stat. fst (stat ! k) = x \<and> AREA (snd (stat ! k)) < a"
      using r by blast
  qed
  finally show ?thesis .
qed

lemma analyzer_contractD:
  assumes "analyzer_contract adj s (lab, stat)"
  shows "map length lab = map length s"
    and "\<And>p. p \<in> set (positions s) \<Longrightarrow> (px lab p = 0) = (px s p = 0)"
    and "stat \<noteq> []"
    and "index_of stat = map int [0 ..< length stat]"
    and "\<And>p. p \<in> set (positions s) \<Longrightarrow> 0 \<le> px lab p \<and> px lab p < int (length stat)"
    and "\<And>j. j < length stat \<Longrightarrow> AREA (snd (stat ! j)) = int (count_label (int j) lab)"
    and "\<And>j. j < length stat \<Longrightarrow> 0 < j \<Longrightarrow> 0 < AREA (snd (stat ! j))"
    and "\<And>p q. p \<in> set (positions s) \<Longrightarrow> q \<in> set (positions s) \<Longrightarrow> px lab p \<noteq> 0 \<Longrightarrow>
           px lab p = px lab q \<Longrightarrow>
           reach adj (\<lambda>a. a \<in> set (positions s) \<and> px lab a = px lab p) p q"
    and "\<And>p q. p \<in> set (positions s) \<Longrightarrow> q \<in> set (positions s) \<Longrightarrow> adj p q \<Longrightarrow>
           px s p \<noteq> 0 \<Longrightarrow> px s q \<noteq> 0 \<Longrightarrow> px lab p = px lab q"
  using assms unfolding analyzer_contract_def prod.case by blast+

lemma spots_slice_shape:
  assumes "analyzer_contract adj s (L, T)"
  shows "map length (map (map f) L) = map length s"
  using analyzer_contractD(1) [OF assms] by (simp add: comp_def)

lemma spots_slice_pixel:
  assumes c: "analyzer_contract adj s (L, T)" and p: "p \<in> set (positions s)"
  shows "px (map (map (\<lambda>x. if x \<noteq> 0 \<and> x \<notin> set (query_area_lt area T) then 1 else 0 :: u8)) L) p
     = (if px L p \<noteq> 0 \<and> area \<le> AREA (snd (T ! nat (px L p))) then 1 else 0)"
proof -
  have ps: "positions L = positions s"
    using analyzer_contractD(1) [OF c] by (rule positions_cong)
  have "px L p \<in> set (query_area_lt area T) \<longleftrightarrow> AREA (snd (T ! nat (px L p))) < area"
    using analyzer_contractD(4,5) [OF c] p by (simp add: query_area_lt_iff)
  then show ?thesis
    using p by (auto simp: px_map_map ps)
qed

lemma spots_slice_regions:
  assumes c: "analyzer_contract adj s (L, T)"
    and c': "analyzer_contract adj
        (map (map (\<lambda>x. if x \<noteq> 0 \<and> x \<notin> set (query_area_lt area T) then 1 else 0 :: u8)) L) (L', T')"
    and row: "row \<in> set (foreground_rows T')"
  shows "area \<le> AREA (snd row)"
proof -
  let ?g = "\<lambda>x. if x \<noteq> 0 \<and> x \<notin> set (query_area_lt area T) then 1 else 0 :: u8"
  let ?o = "map (map ?g) L"
  let ?ps = "positions s"
  have psL: "positions L = ?ps"
    using analyzer_contractD(1) [OF c] by (rule positions_cong)
  have pso: "positions ?o = ?ps"
    using spots_slice_shape [OF c] by (rule positions_cong)
  have psL': "positions L' = ?ps"
    using positions_cong [OF analyzer_contractD(1) [OF c']] pso by simp
  have o: "px ?o a = ?g (px L a)" if "a \<in> set ?ps" for a
    using that by (simp add: px_map_map psL)
  \<comment> \<open>the row is the row of a region id \<open>j > 0\<close> of the second analysis\<close>
  from row obtain j where j: "j < length T'" "row = T' ! j" "fst row \<noteq> 0"
    by (auto simp: foreground_rows_def in_set_conv_nth)
  have "index_of T' ! j = int j"
    using j(1) analyzer_contractD(4) [OF c'] by simp
  then have fj: "fst row = int j"
    using j(1,2) by (simp add: index_of_def)
  with j(3) have j0: "0 < j" by simp
  have area': "AREA (snd row) = int (count_label (int j) L')"
    using analyzer_contractD(6) [OF c' j(1)] j(2) by simp
  have "0 < AREA (snd row)"
    using analyzer_contractD(7) [OF c' j(1) j0] j(2) by simp
  then have "filter (\<lambda>p. px L' p = int j) ?ps \<noteq> []"
    unfolding area' count_label_positions psL' by auto
  then obtain p where p: "p \<in> set ?ps" "px L' p = int j"
    by (metis (mono_tags, lifting) filter_False)
  \<comment> \<open>that region has a pixel \<open>p\<close>, which survived: it lies in a region \<open>l\<close> of the first
      analysis that was not erased\<close>
  have "px ?o p \<noteq> 0"
    using analyzer_contractD(2) [OF c', of p] p j0 pso by simp
  then have l: "px L p \<noteq> 0" "px L p \<notin> set (query_area_lt area T)"
    using o [OF p(1)] by (auto split: if_splits)
  let ?l = "px L p"
  have lr: "0 \<le> ?l \<and> ?l < int (length T)"
    using analyzer_contractD(5) [OF c p(1)] .
  then have nl: "nat ?l < length T" "int (nat ?l) = ?l"
    by (simp_all add: nat_less_iff)
  have "\<not> AREA (snd (T ! nat ?l)) < area"
    using l(2) query_area_lt_iff [OF analyzer_contractD(4) [OF c], of ?l area] lr by simp
  then have big: "area \<le> int (count_label ?l L)"
    using analyzer_contractD(6) [OF c nl(1)] nl(2) by simp
  \<comment> \<open>every pixel of region \<open>l\<close> lies in region \<open>j\<close>\<close>
  have same: "px L' q = int j" if q: "q \<in> set ?ps" "px L q = ?l" for q
  proof -
    have r: "reach adj (\<lambda>a. a \<in> set ?ps \<and> px L a = ?l) p q"
      using analyzer_contractD(8) [OF c p(1) q(1) l(1)] q(2) by simp
    have "px L' q = px L' p"
      using r
    proof (rule reach_same_value)
      fix a b
      assume a: "a \<in> set ?ps \<and> px L a = ?l" and b: "b \<in> set ?ps \<and> px L b = ?l"
        and ab: "adj a b"
      have "px ?o a \<noteq> 0" "px ?o b \<noteq> 0"
        using a b l o by simp_all
      then show "px L' a = px L' b"
        using analyzer_contractD(9) [OF c', of a b] a b ab pso by simp
    qed
    then show ?thesis using p(2) by simp
  qed
  have "count_label ?l L \<le> count_label (int j) L'"
    unfolding count_label_positions psL psL'
    by (rule length_filter_mono) (simp add: same)
  then show ?thesis
    using big area' by simp
qed

lemma reach_adjacent:
  "inside p \<Longrightarrow> inside q \<Longrightarrow> adj p q \<Longrightarrow> reach adj inside p q"
  by (rule reach_step [OF reach_refl])

lemma remove_spots_nonpositive:
  assumes "area \<le> 0" and "\<forall>s\<in>set img. \<forall>row\<in>set (snd (analyze s)). 0 \<le> AREA (snd row)"
  shows "remove_spots analyze img area =
     map_volume (\<lambda>x. if x \<noteq> 0 then 1 else 0) (map (\<lambda>s. fst (analyze s)) img)"
proof -
  have "query_area_lt area (snd (analyze s)) = []" if "s \<in> set img" for s
    using that assms by (fastforce simp: query_area_lt_def filter_empty_conv)
  then show ?thesis
    by (simp add: remove_spots_eq map_volume_def)
qed

text \<open>
  C4. For an analyzer that keeps its contract on the slices of the input, \<open>remove_spots\<close>
  returns a volume of the shape of the input with samples 0 and 1; in every slice a pixel is 1
  if and only if it lies in a region (non-zero label) whose \<^verbatim>\<open>AREA\<close> is not below \<open>area\<close>, so
  the regions with \<^verbatim>\<open>AREA < area\<close> are erased and the others collapse to the value 1; and every
  analysis of an output slice that keeps the contract finds no foreground region with
  \<^verbatim>\<open>AREA\<close> below \<open>area\<close>.
\<close>

theorem remove_spots_erases_small_regions:
  assumes "\<forall>s\<in>set img. analyzer_contract adj s (analyze s)"
  shows "let out = remove_spots analyze img area in
      map (map length) out = map (map length) img \<and>
      binary_volume 1 out \<and>
      (\<forall>i<length img. \<forall>p\<in>set (positions (img ! i)).
         px (out ! i) p =
           (if px (fst (analyze (img ! i))) p \<noteq> 0 \<and>
               area \<le> AREA (snd (snd (analyze (img ! i)) ! nat (px (fst (analyze (img ! i))) p)))
            then 1 else 0)) \<and>
      (\<forall>i<length img. \<forall>res. analyzer_contract adj (out ! i) res \<longrightarrow>
         (\<forall>row\<in>set (foreground_rows (snd res)). area \<le> AREA (snd row)))"
proof -
  let ?g = "\<lambda>s x. if x \<noteq> 0 \<and> x \<notin> set (query_area_lt area (snd (analyze s))) then 1 else 0 :: u8"
  let ?o = "\<lambda>s. map (map (?g s)) (fst (analyze s))"
  have out: "remove_spots analyze img area = map ?o img"
    by (rule remove_spots_eq)
  have c: "analyzer_contract adj s (fst (analyze s), snd (analyze s))" if "s \<in> set img" for s
    using assms that by simp
  have shape: "map (map length) (map ?o img) = map (map length) img"
    using spots_slice_shape [OF c] by (simp add: comp_def)
  have bin: "binary_volume 1 (map ?o img)"
    by (auto simp: binary_volume_def list_all_iff)
  have pixel: "px (map ?o img ! i) p =
      (if px (fst (analyze (img ! i))) p \<noteq> 0 \<and>
          area \<le> AREA (snd (snd (analyze (img ! i)) ! nat (px (fst (analyze (img ! i))) p)))
       then 1 else 0)"
    if "i < length img" "p \<in> set (positions (img ! i))" for i p
    using that spots_slice_pixel [OF c, of "img ! i" p area] by simp
  have regions: "area \<le> AREA (snd row)"
    if "i < length img" "analyzer_contract adj (map ?o img ! i) res"
      "row \<in> set (foreground_rows (snd res))" for i res row
  proof -
    have "analyzer_contract adj (?o (img ! i)) (fst res, snd res)"
      using that(1,2) by simp
    then show ?thesis
      using spots_slice_regions [OF c, of "img ! i" area "fst res" "snd res" row] that(1,3)
      by simp
  qed
  show ?thesis
    unfolding Let_def out using shape bin pixel regions by blast
qed

lemma example_contract_1:
  "analyzer_contract adj8 [[1, 0, 1, 1]] (example_analyze [[1, 0, 1, 1]])"
  by (simp add: example_analyze_def analyzer_of_table_def example_table_def
      analyzer_contract_def positions_def px_def index_of_def count_label_def
      All_less_Suc adj8_def reach_refl reach_adjacent)

lemma example_contract_2:
  "analyzer_contract adj8 [[0, 0, 1, 1]] (example_analyze [[0, 0, 1, 1]])"
  by (simp add: example_analyze_def analyzer_of_table_def example_table_def
      analyzer_contract_def positions_def px_def index_of_def count_label_def
      All_less_Suc adj8_def reach_refl reach_adjacent)

lemma example_contract_3:
  "analyzer_contract adj8 [[255, 255], [0, 0], [255, 255]]
     (example_analyze [[255, 255], [0, 0], [255, 255]])"
  by (simp add: example_analyze_def analyzer_of_table_def example_table_def
      analyzer_contract_def positions_def px_def index_of_def count_label_def
      All_less_Suc adj8_def reach_refl reach_adjacent)

lemma example_contract_4:
  "analyzer_contract adj8 [[1, 0]] (example_analyze [[1, 0]])"
  by (simp add: example_analyze_def analyzer_of_table_def example_table_def
      analyzer_contract_def positions_def px_def index_of_def count_label_def
      All_less_Suc adj8_def reach_refl reach_adjacent)

lemmas example_defs = example_analyze_def analyzer_of_table_def example_table_def

theorem remove_spots_erases_small_regions_witness:
  "map (map length) (remove_spots example_analyze [[[1, 0, 1, 1]]] 2) = [[4]]
   \<and> px (remove_spots example_analyze [[[1, 0, 1, 1]]] 2 ! 0) (0, 0) = 0
   \<and> px (remove_spots example_analyze [[[1, 0, 1, 1]]] 2 ! 0) (0, 2) = 1
   \<and> 2 \<le> AREA (snd (snd (example_analyze [[0, 0, 1, 1]]) ! 1))"
proof -
  let ?img = "[[[1, 0, 1, 1]]] :: u8 volume"
  let ?out = "remove_spots example_analyze ?img 2"
  have h: "\<forall>s\<in>set ?img. analyzer_contract adj8 s (example_analyze s)"
    by (simp add: example_contract_1)
  note t = remove_spots_erases_small_regions [OF h, of 2, unfolded Let_def]
  have ev: "?out ! 0 = [[0, 0, 1, 1]]"
    by (simp add: remove_spots_def connected_components_wStats_def example_defs
        query_area_lt_def set_where_def map_volume_def)
  from t have shape: "map (map length) ?out = map (map length) ?img"
    by (rule conjunct1)
  from t have pixel: "\<And>i p. i < length ?img \<Longrightarrow> p \<in> set (positions (?img ! i)) \<Longrightarrow>
      px (?out ! i) p =
        (if px (fst (example_analyze (?img ! i))) p \<noteq> 0 \<and>
            2 \<le> AREA (snd (snd (example_analyze (?img ! i)) ! nat (px (fst (example_analyze (?img ! i))) p)))
         then 1 else 0)"
    by blast
  from t have regions: "\<And>i res row. i < length ?img \<Longrightarrow> analyzer_contract adj8 (?out ! i) res \<Longrightarrow>
      row \<in> set (foreground_rows (snd res)) \<Longrightarrow> 2 \<le> AREA (snd row)"
    by blast
  have p0: "px (?out ! 0) (0, 0) = 0"
    using pixel [of 0 "(0, 0)"] by (simp add: positions_def px_def example_defs)
  have p2: "px (?out ! 0) (0, 2) = 1"
    using pixel [of 0 "(0, 2)"] by (simp add: positions_def px_def example_defs)
  have c2: "analyzer_contract adj8 (?out ! 0) (example_analyze [[0, 0, 1, 1]])"
    unfolding ev by (rule example_contract_2)
  have "snd (example_analyze [[0, 0, 1, 1]]) ! 1 \<in> set (foreground_rows (snd (example_analyze [[0, 0, 1, 1]])))"
    by (simp add: example_defs foreground_rows_def)
  then have r: "2 \<le> AREA (snd (snd (example_analyze [[0, 0, 1, 1]]) ! 1))"
    using regions [of 0 "example_analyze [[0, 0, 1, 1]]"] c2 by simp
  show ?thesis
    using shape p0 p2 r by simp
qed

lemma filter_unique_key:
  "distinct (map f xs) \<Longrightarrow> i < length xs \<Longrightarrow> filter (\<lambda>x. f x = f (xs ! i)) xs = [xs ! i]"
proof (induction xs arbitrary: i)
  case Nil
  then show ?case by simp
next
  case (Cons x xs)
  show ?case
  proof (cases i)
    case 0
    have "f x \<notin> f ` set xs"
      using Cons.prems(1) by simp
    then have "f y \<noteq> f x" if "y \<in> set xs" for y
      using that by (metis imageI)
    then have "filter (\<lambda>y. f y = f x) xs = []"
      by (simp add: filter_empty_conv)
    then show ?thesis using 0 by simp
  next
    case (Suc k)
    then have k: "k < length xs" using Cons.prems(2) by simp
    then have "f (xs ! k) \<in> f ` set xs" by simp
    then have "f x \<noteq> f (xs ! k)" using Cons.prems(1) by auto
    then show ?thesis
      using Suc k Cons.IH [of k] Cons.prems(1) by simp
  qed
qed

lemma assign_where_map:
  "assign_where (map (map P) a) v a = map (map (\<lambda>x. if P x then v else x)) a"
proof -
  have r: "map2 (\<lambda>b x. if b then v else x) (map P row) row = map (\<lambda>x. if P x then v else x) row"
    for row :: "'a list"
    by (induction row) simp_all
  have "map2 (map2 (\<lambda>b x. if b then v else x)) (map (map P) a) a
      = map (map (\<lambda>x. if P x then v else x)) a"
    by (induction a) (simp_all add: r)
  then show ?thesis
    by (simp add: assign_where_def zip_slice_def)
qed

lemma fold_err_append:
  "fold_err f (xs @ ys) s = (case fold_err f xs s of Inl e \<Rightarrow> Inl e | Inr s' \<Rightarrow> fold_err f ys s')"
  by (induction xs arbitrary: s) (simp_all split: sum.splits)

lemma select_loop:
  fixes st :: stats_table
  assumes d: "distinct (map (\<lambda>row. AREA (snd row)) st)"
    and l: "\<forall>row\<in>set st. 0 < fst row \<and> fst row < 255"
  shows "n \<le> length st \<Longrightarrow>
    fold_err (\<lambda>i lab.
        (let index = query_area_eq (AREA (snd (st ! i))) st in
         case eq_broadcast lab (map np_uint8 index) of
           Inl e \<Rightarrow> Inl e
         | Inr m \<Rightarrow> Inr (assign_where m 255 lab)))
      [0 ..< n] lab
    = Inr (map (map (\<lambda>x. if x \<in> fst ` set (take n st) then 255 else x)) lab)"
proof (induction n)
  case 0
  then show ?case by (simp add: map_idI)
next
  case (Suc n)
  let ?body = "\<lambda>i lab.
        (let index = query_area_eq (AREA (snd (st ! i))) st in
         case eq_broadcast lab (map np_uint8 index) of
           Inl e \<Rightarrow> Inl e
         | Inr m \<Rightarrow> Inr (assign_where m 255 lab))"
  let ?K = "fst ` set (take n st)"
  let ?lab = "map (map (\<lambda>x. if x \<in> ?K then 255 else x)) lab"
  have n: "n < length st" using Suc.prems by simp
  have ih: "fold_err ?body [0 ..< n] lab = Inr ?lab"
    using Suc by simp
  have q: "query_area_eq (AREA (snd (st ! n))) st = [fst (st ! n)]"
    using filter_unique_key [OF d n] by (simp add: query_area_eq_def)
  have ln: "0 < fst (st ! n)" "fst (st ! n) < 255"
    using l n by simp_all
  then have u: "np_uint8 (fst (st ! n)) = fst (st ! n)"
    by (simp add: np_uint8_def)
  have b: "eq_broadcast ?lab [fst (st ! n)] = Inr (map (map (\<lambda>x. x = fst (st ! n))) ?lab)"
    by (simp add: eq_broadcast_def)
  have step: "?body n ?lab = Inr (map (map (\<lambda>x. if x = fst (st ! n) then 255 else x)) ?lab)"
    by (simp only: Let_def q list.map u b sum.case assign_where_map)
  have k: "fst ` set (take (Suc n) st) = insert (fst (st ! n)) ?K"
    using n by (simp add: take_Suc_conv_app_nth)
  have comp: "map (map (\<lambda>x. if x = fst (st ! n) then 255 else x)) ?lab
      = map (map (\<lambda>x. if x \<in> fst ` set (take (Suc n) st) then 255 else x)) lab"
    unfolding k using ln by (auto simp: comp_def)
  have "[0 ..< Suc n] = [0 ..< n] @ [n]"
    by simp
  then show ?case
    by (simp only: fold_err_append ih sum.case fold_err.simps step comp)
qed


lemma distinct_map_same_set:
  assumes "set ys = set xs" "length ys = length xs" "distinct (map f xs)"
  shows "distinct (map f ys)"
proof -
  have "card (set (map f xs)) = length (map f xs)"
    using assms(3) by (rule distinct_card)
  then have "card (set (map f ys)) = length (map f ys)"
    using assms(1,2) by simp
  then show ?thesis by (rule card_distinct)
qed

lemma sort_values_stable_descending: "descending_by_AREA sort_values_stable stat"
  by (simp add: descending_by_AREA_def sort_values_stable_def rev_map)

lemma sort_values_reversed_descending: "descending_by_AREA sort_values_reversed stat"
  by (simp add: descending_by_AREA_def sort_values_reversed_def rev_map)

lemma descending_unique:
  assumes m: "mset xs = mset ys"
    and sx: "sorted (rev (map f xs))" and sy: "sorted (rev (map f ys))"
    and d: "distinct (map f ys)"
  shows "xs = ys"
proof -
  have mm: "mset (map f xs) = mset (map f ys)"
    using m by simp
  then have dx: "distinct (map f xs)"
    using d mset_eq_imp_distinct_iff by blast
  have "set (rev (map f xs)) = set (rev (map f ys))"
    using mm mset_eq_setD by fastforce
  then have "rev (map f xs) = rev (map f ys)"
    using sx sy dx d by (intro sorted_distinct_set_unique) simp_all
  then have e: "map f xs = map f ys"
    by simp
  have "set xs = set ys"
    using m by (rule mset_eq_setD)
  moreover have "inj_on f (set ys)"
    using d by (simp add: distinct_map)
  ultimately have "inj_on f (set xs \<union> set ys)"
    by simp
  then show ?thesis
    using e by (simp add: inj_on_map_eq_map)
qed

lemma descending_distinct_stable:
  assumes "descending_by_AREA sort_values stat"
    and "distinct (map (\<lambda>row. AREA (snd row)) stat)"
  shows "sort_values stat = sort_values_stable stat"
proof -
  have s: "descending_by_AREA sort_values_stable stat"
    by (rule sort_values_stable_descending)
  have "set (sort_values_stable stat) = set stat"
    "length (sort_values_stable stat) = length stat"
    by (simp_all add: sort_values_stable_def)
  then have "distinct (map (\<lambda>row. AREA (snd row)) (sort_values_stable stat))"
    using assms(2) by (rule distinct_map_same_set)
  then show ?thesis
    using assms(1) s by (intro descending_unique) (simp_all add: descending_by_AREA_def)
qed

lemma sort_values_set: "set (sort_values_stable st) = set st"
  by (simp add: sort_values_stable_def)

lemma sort_values_length: "length (sort_values_stable st) = length st"
  by (simp add: sort_values_stable_def)

lemma select_slice_distinct_areas:
  assumes z: "0 \<in> set (index_of stat)" and n1: "1 \<le> n_reg"
    and srt: "descending_by_AREA sort_values (foreground_rows stat)"
    and d: "distinct (map (\<lambda>row. AREA (snd row)) (foreground_rows stat))"
    and l: "\<forall>row\<in>set (foreground_rows stat). 0 < fst row \<and> fst row < 255"
    and nl: "\<forall>r\<in>set lab. \<forall>x\<in>set r. x \<noteq> 255"
  shows "select_slice sort_values n_reg stat lab = Inr (keep_largest n_reg stat lab)"
proof -
  let ?st = "sort_values_stable (foreground_rows stat)"
  have dr: "drop_index 0 stat = Inr (foreground_rows stat)"
    using z by (simp add: drop_index_def foreground_rows_def)
  have st: "sort_values (foreground_rows stat) = ?st"
    using srt d by (rule descending_distinct_stable)
  have d': "distinct (map (\<lambda>row. AREA (snd row)) ?st)"
    using sort_values_set sort_values_length d by (rule distinct_map_same_set)
  have l': "\<forall>row\<in>set ?st. 0 < fst row \<and> fst row < 255"
    using l by (simp add: sort_values_set)
  show ?thesis
  proof (cases "n_reg \<le> int (length ?st)")
    case True
    then have n: "nat n_reg \<le> length ?st" by simp
    let ?K = "fst ` set (take (nat n_reg) ?st)"
    have "set_where (\<lambda>x. x \<noteq> 255) 0 (map (map (\<lambda>x. if x \<in> ?K then 255 else x)) lab)
        = map (map (\<lambda>x. if x \<in> ?K then 255 else 0)) lab"
      using nl by (auto simp: set_where_def)
    then show ?thesis
      using True
      by (simp add: select_slice_def dr st Let_def select_loop [OF d' l' n, unfolded Let_def]
          keep_largest_def)
  next
    case False
    have "set_where (\<lambda>x. x \<noteq> 0) (0::int) lab = map (map (\<lambda>x. 0)) lab"
      by (auto simp: set_where_def)
    then show ?thesis
      using False by (simp add: select_slice_def dr st Let_def keep_largest_def)
  qed
qed

lemma select_distinct_areas:
  assumes "1 \<le> n_reg"
    and "\<forall>s\<in>set img. 0 \<in> set (index_of (snd (analyze s)))"
    and "\<forall>s\<in>set img. descending_by_AREA sort_values (foreground_rows (snd (analyze s)))"
    and "\<forall>s\<in>set img. distinct (map (\<lambda>row. AREA (snd row)) (foreground_rows (snd (analyze s))))"
    and "\<forall>s\<in>set img. \<forall>row\<in>set (foreground_rows (snd (analyze s))). 0 < fst row \<and> fst row < 255"
    and "\<forall>s\<in>set img. \<forall>r\<in>set (fst (analyze s)). \<forall>x\<in>set r. x \<noteq> 255"
  shows "select_greater_connected_regions analyze sort_values img n_reg =
     Inr (map_volume word_of_int
            (map (\<lambda>s. keep_largest n_reg (snd (analyze s)) (fst (analyze s))) img))"
proof -
  let ?f = "\<lambda>(stat, lab). select_slice sort_values n_reg stat lab"
  let ?g = "\<lambda>(stat, lab). keep_largest n_reg stat lab"
  let ?xs = "map (\<lambda>s. (snd (analyze s), fst (analyze s))) img"
  have "?f x = Inr (?g x)" if "x \<in> set ?xs" for x
    using that assms by (auto simp: select_slice_distinct_areas)
  then have "map_err ?f ?xs = Inr (map ?g ?xs)"
    by (rule map_err_all_Inr)
  then show ?thesis
    by (simp add: select_greater_connected_regions_def connected_components_wStats_def
        zip_map_map zip_same_conv_map comp_def)
qed

lemma mset_pair_cases:
  assumes "mset xs = mset [a, b]"
  shows "xs = [a, b] \<or> xs = [b, a]"
proof -
  have "length xs = length [a, b]"
    using assms by (rule mset_eq_length)
  then have "length xs = Suc (Suc 0)"
    by simp
  then obtain x y where xs: "xs = [x, y]"
    by (auto simp: length_Suc_conv)
  have "set xs = set [a, b]"
    using assms by (rule mset_eq_setD)
  then have "{x, y} = {a, b}"
    unfolding xs by simp
  then show ?thesis
    unfolding xs by (auto simp: doubleton_eq_iff)
qed

lemma select_equal_areas_any_order:
  assumes "descending_by_AREA sort_values
             (foreground_rows (snd (example_analyze [[255, 255], [0, 0], [255, 255]])))"
  shows "select_greater_connected_regions example_analyze sort_values
             [[[255, 255], [0, 0], [255, 255]]] 1 = Inr [[[255, 0], [0, 0], [0, 255]]]
       \<or> select_greater_connected_regions example_analyze sort_values
             [[[255, 255], [0, 0], [255, 255]]] 1 = Inr [[[0, 255], [0, 0], [255, 0]]]"
proof -
  let ?r1 = "(1::int, \<lparr>LEFT = 0, TOP = 0, WIDTH = 2, HEIGHT = 1, AREA = 2\<rparr>)"
  let ?r2 = "(2::int, \<lparr>LEFT = 0, TOP = 2, WIDTH = 2, HEIGHT = 1, AREA = 2\<rparr>)"
  have fg: "foreground_rows (snd (example_analyze [[255, 255], [0, 0], [255, 255]])) = [?r1, ?r2]"
    by (simp add: example_defs foreground_rows_def)
  have "mset (sort_values [?r1, ?r2]) = mset [?r1, ?r2]"
    using assms unfolding fg descending_by_AREA_def by (rule conjunct1)
  then consider "sort_values [?r1, ?r2] = [?r1, ?r2]" | "sort_values [?r1, ?r2] = [?r2, ?r1]"
    by (rule mset_pair_cases [THEN disjE]) blast+
  then show ?thesis
  proof cases
    case 1
    then have "select_greater_connected_regions example_analyze sort_values
             [[[255, 255], [0, 0], [255, 255]]] 1 = Inr [[[255, 0], [0, 0], [0, 255]]]"
      by (simp add: select_greater_connected_regions_def connected_components_wStats_def
      example_defs select_slice_def drop_index_def index_of_def
      query_area_eq_def np_uint8_def eq_broadcast_def ncols_def assign_where_def zip_slice_def
      set_where_def map_volume_def)
    then show ?thesis by (rule disjI1)
  next
    case 2
    then have "select_greater_connected_regions example_analyze sort_values
             [[[255, 255], [0, 0], [255, 255]]] 1 = Inr [[[0, 255], [0, 0], [255, 0]]]"
      by (simp add: select_greater_connected_regions_def connected_components_wStats_def
      example_defs select_slice_def drop_index_def index_of_def
      query_area_eq_def np_uint8_def eq_broadcast_def ncols_def assign_where_def zip_slice_def
      set_where_def map_volume_def)
    then show ?thesis by (rule disjI2)
  qed
qed

text \<open>
  C1. A slice with two regions of equal area, \<open>n_reg = 1\<close>. The slice has at least \<open>n_reg\<close>
  foreground regions, so one whole region is to be kept. The code looks the region up by
  its area, finds both labels, and compares the label map with the two labels column by
  column: the output holds the left pixel of one region and the right pixel of the other
  (which region gives which pixel depends on the order in which the sort leaves the two
  rows), where the documented selection keeps one whole region. No order of the two rows
  gives a whole region (\<open>select_equal_areas_any_order\<close>). With pairwise distinct areas and
  fewer than 255 regions the code computes the documented selection
  (\<open>select_distinct_areas\<close>).
\<close>

theorem select_greater_connected_regions_equal_areas:
  "select_greater_connected_regions example_analyze sort_values_stable
       [[[255, 255], [0, 0], [255, 255]]] 1
     = Inr [[[255, 0], [0, 0], [0, 255]]]
   \<and> select_greater_connected_regions example_analyze sort_values_reversed
       [[[255, 255], [0, 0], [255, 255]]] 1
     = Inr [[[0, 255], [0, 0], [255, 0]]]
   \<and> keep_largest 1 (snd (example_analyze [[255, 255], [0, 0], [255, 255]]))
        (fst (example_analyze [[255, 255], [0, 0], [255, 255]]))
     = [[255, 255], [0, 0], [0, 0]]"
  by (simp add: select_greater_connected_regions_def connected_components_wStats_def
      example_defs select_slice_def drop_index_def index_of_def sort_values_stable_def
      sort_values_reversed_def
      query_area_eq_def np_uint8_def eq_broadcast_def ncols_def assign_where_def zip_slice_def
      set_where_def map_volume_def keep_largest_def foreground_rows_def)

lemma select_distinct_areas_example:
  "select_greater_connected_regions example_analyze sort_values_stable [[[1, 0, 1, 1]]] 1 = Inr [[[0, 0, 255, 255]]]
   \<and> select_greater_connected_regions example_analyze sort_values_stable [[[1, 0, 1, 1]]] 3 = Inr [[[0, 0, 0, 0]]]"
  by (simp add: select_greater_connected_regions_def connected_components_wStats_def
      example_defs select_slice_def drop_index_def index_of_def sort_values_stable_def
      query_area_eq_def np_uint8_def eq_broadcast_def ncols_def assign_where_def zip_slice_def
      set_where_def map_volume_def)

text \<open>
  A volume with foreground value 1 comes back with foreground value 255.
\<close>

theorem select_foreground_value_counterexample:
  "binary_volume 1 [[[1, 0]]]
   \<and> select_greater_connected_regions example_analyze sort_values_stable [[[1, 0]]] 1 = Inr [[[255, 0]]]
   \<and> \<not> binary_volume 1 [[[255, 0]]]"
  by (simp add: select_greater_connected_regions_def connected_components_wStats_def
      example_defs select_slice_def drop_index_def index_of_def sort_values_stable_def
      query_area_eq_def np_uint8_def eq_broadcast_def ncols_def assign_where_def zip_slice_def
      set_where_def map_volume_def binary_volume_def)

theorem select_output_convention_witness:
  "select_greater_connected_regions example_analyze sort_values_stable [[[1, 0]]] 1 = Inr [[[255, 0]]]
   \<and> binary_volume 255 [[[255, 0]]]"
proof -
  have e: "select_greater_connected_regions example_analyze sort_values_stable [[[1, 0]]] 1 = Inr [[[255, 0]]]"
    by (simp add: select_greater_connected_regions_def connected_components_wStats_def
      example_defs select_slice_def drop_index_def index_of_def sort_values_stable_def
      query_area_eq_def np_uint8_def eq_broadcast_def ncols_def assign_where_def zip_slice_def
      set_where_def map_volume_def)
  from select_output_convention [OF e] e show ?thesis by simp
qed

text \<open>
  Calls with \<open>area = 0\<close>, \<open>n_reg = 0\<close> and a bit position 9 return normally.
\<close>

theorem invalid_parameters_counterexample:
  "remove_spots example_analyze [[[1, 0, 1, 1]]] 0 = [[[1, 0, 1, 1]]]
   \<and> select_greater_connected_regions example_analyze sort_values_stable [[[1, 0]]] 0 = Inr [[[0, 0]]]
   \<and> bit_plane_slices [[[200]]] [9, 7, 2] = Inr [[[64]]]"
proof -
  have "remove_spots example_analyze [[[1, 0, 1, 1]]] 0 = [[[1, 0, 1, 1]]]"
    by (simp add: remove_spots_eq example_defs query_area_lt_def)
  moreover have "select_greater_connected_regions example_analyze sort_values_stable [[[1, 0]]] 0 = Inr [[[0, 0]]]"
    by (simp add: select_greater_connected_regions_def connected_components_wStats_def
      example_defs select_slice_def drop_index_def index_of_def sort_values_stable_def
      set_where_def map_volume_def)
  moreover have "bit_plane_slices [[[200]]] [9, 7, 2] = Inr [[[64]]]"
    by (simp add: bit_plane_slices_def take_planes_def gl2bit_def significance_of_def
      reshape_3111_def weighted_def astype_uint8_def map_volume_def zip_volume_def zip_slice_def)
  ultimately show ?thesis by simp
qed

text \<open>
  C6. None of the three functions checks its parameters. \<open>remove_spots\<close> with \<open>area \<le> 0\<close>
  returns the label volume binarised, no region erased (the areas of a table being counts,
  none is negative). \<open>select_greater_connected_regions\<close> with \<open>n_reg \<le> 0\<close> returns, on tables that
  hold their background row, a volume whose only foreground is the pixels labelled 255.
  \<open>bit_plane_slices\<close> fails on a bit position \<open>b\<close> only where the plane index \<open>8 - b\<close> is out of
  range (\<open>b < 1\<close> or \<open>b > 16\<close>, \<^verbatim>\<open>IndexError\<close>); three positions between 1 and 16 are accepted,
  9 to 16 among them.
\<close>

theorem no_parameter_validation:
  "(area \<le> 0 \<and> (\<forall>s\<in>set img. \<forall>row\<in>set (snd (analyze s)). 0 \<le> AREA (snd row)) \<longrightarrow>
      remove_spots analyze img area =
        map_volume (\<lambda>x. if x \<noteq> 0 then 1 else 0) (map (\<lambda>s. fst (analyze s)) img))
   \<and> (n_reg \<le> 0 \<and> (\<forall>s\<in>set img. 0 \<in> set (index_of (snd (analyze s)))) \<longrightarrow>
        select_greater_connected_regions analyze sort_values img n_reg =
          Inr (map (\<lambda>s. map (map (\<lambda>x. if x = 255 then 255 else 0)) (fst (analyze s))) img))
   \<and> ((\<exists>b\<in>set bits. b < 1 \<or> 16 < b) \<longrightarrow> bit_plane_slices stack bits = Inl IndexError)
   \<and> (length bits = 3 \<and> (\<forall>b\<in>set bits. 1 \<le> b \<and> b \<le> 16) \<longrightarrow>
        (\<exists>out. bit_plane_slices stack bits = Inr out))"
  using remove_spots_nonpositive [of area img analyze]
    select_nonpositive [of n_reg img analyze sort_values]
    bit_plane_slices_index_error [of bits stack]
    bit_plane_slices_accepts [of bits stack]
  by blast

theorem no_parameter_validation_witness:
  "remove_spots example_analyze [[[1, 0, 1, 1]]] (- 1) = [[[1, 0, 1, 1]]]
   \<and> select_greater_connected_regions example_analyze sort_values_stable [[[1, 0]]] (- 1) = Inr [[[0, 0]]]
   \<and> bit_plane_slices [[[200]]] [0, 7, 2] = Inl IndexError
   \<and> (\<exists>out. bit_plane_slices [[[200]]] [16, 7, 2] = Inr out)"
  using no_parameter_validation
    [where area = "- 1" and img = "[[[1, 0, 1, 1]]]" and analyze = example_analyze
       and n_reg = "- 1" and sort_values = sort_values_stable
       and bits = "[0, 7, 2]" and stack = "[[[200]]]"]
    no_parameter_validation
    [where area = "- 1" and img = "[[[1, 0]]]" and analyze = example_analyze
       and n_reg = "- 1" and sort_values = sort_values_stable
       and bits = "[16, 7, 2]" and stack = "[[[200]]]"]
  by (simp add: example_defs index_of_def map_volume_def)


end
